theory Spec2Isabelle
  imports Complex_Main "HOL-Library.Word" "HOL-Library.Multiset_Order" "HOL-Library.Product_Lexorder"
begin

section \<open>Strings and the built-in operations the engine calls\<close>

text \<open>
  A string of the engine is a sequence of UTF-16 code units. \<open>js\<close> turns an ASCII literal
  into such a string. Numbers of the source (\<open>priority\<close>, \<open>consumes\<close>, \<open>pos\<close>,
  \<open>maxExpansions\<close>, \<open>minKeyLength\<close>) are integers here; heuristic weights and similarity
  scores are rationals.
\<close>

type_synonym jschar = "16 word"
type_synonym jsstring = "jschar list"

definition js :: "string \<Rightarrow> jsstring" where
  "js s = map of_char s"

text \<open>\<open>text.slice(0, e)\<close> and \<open>text.slice(s)\<close>: a negative index counts from the end.\<close>

definition slice_to :: "jsstring \<Rightarrow> int \<Rightarrow> jsstring" where
  "slice_to text e = take (nat (if e < 0 then int (length text) + e else e)) text"

text \<open>\<open>xs.slice(0, e)\<close> on an array.\<close>

definition slice_to_list :: "'a list \<Rightarrow> int \<Rightarrow> 'a list" where
  "slice_to_list xs e = take (nat (if e < 0 then int (length xs) + e else e)) xs"

definition slice_from :: "jsstring \<Rightarrow> int \<Rightarrow> jsstring" where
  "slice_from text s = drop (nat (if s < 0 then int (length text) + s else s)) text"

fun is_prefix_of :: "jsstring \<Rightarrow> jsstring \<Rightarrow> bool" where
  "is_prefix_of [] ys = True"
| "is_prefix_of (x # xs) [] = False"
| "is_prefix_of (x # xs) (y # ys) = (x = y \<and> is_prefix_of xs ys)"

text \<open>\<open>text.startsWith(pat, p)\<close>: the position is clamped to the string.\<close>

definition startsWith :: "jsstring \<Rightarrow> jsstring \<Rightarrow> int \<Rightarrow> bool" where
  "startsWith text pat p = is_prefix_of pat (drop (nat p) text)"

text \<open>\<open>text[i]\<close>: \<open>None\<close> stands for \<open>undefined\<close>.\<close>

definition char_at :: "jsstring \<Rightarrow> int \<Rightarrow> jschar option" where
  "char_at text i = (if 0 \<le> i \<and> i < int (length text) then Some (text ! nat i) else None)"

text \<open>The class \<open>\s\<close> of a regular expression, which is also what \<open>trim\<close> removes.\<close>

definition is_space :: "jschar \<Rightarrow> bool" where
  "is_space c \<longleftrightarrow>
     c = 0x9 \<or> c = 0xA \<or> c = 0xB \<or> c = 0xC \<or> c = 0xD \<or> c = 0x20 \<or> c = 0xA0 \<or> c = 0x1680
     \<or> (0x2000 \<le> c \<and> c \<le> 0x200A)
     \<or> c = 0x2028 \<or> c = 0x2029 \<or> c = 0x202F \<or> c = 0x205F \<or> c = 0x3000 \<or> c = 0xFEFF"

definition trim :: "jsstring \<Rightarrow> jsstring" where
  "trim s = rev (dropWhile is_space (rev (dropWhile is_space s)))"

text \<open>
  \<open>s.replace(/[class]+/g, rep)\<close>: every maximal run of characters of the class becomes one
  \<open>rep\<close>. The flag says whether the scan is inside a run.
\<close>

fun replace_runs :: "(jschar \<Rightarrow> bool) \<Rightarrow> jsstring \<Rightarrow> bool \<Rightarrow> jsstring \<Rightarrow> jsstring" where
  "replace_runs P rep in_run [] = []"
| "replace_runs P rep in_run (c # cs) =
     (if P c then (if in_run then [] else rep) @ replace_runs P rep True cs
      else c # replace_runs P rep False cs)"

text \<open>\<open>s.replace(/c/g, rep)\<close> for a single character \<open>c\<close>.\<close>

definition replace_char :: "jschar \<Rightarrow> jsstring \<Rightarrow> jsstring \<Rightarrow> jsstring" where
  "replace_char c rep s = concat (map (\<lambda>x. if x = c then rep else [x]) s)"

text \<open>
  \<open>xs.sort(cmp)\<close>: a stable sort; \<open>x\<close> stays before \<open>y\<close> unless \<open>cmp x y\<close> is positive.
\<close>

fun insort_cmp :: "('a \<Rightarrow> 'a \<Rightarrow> 'b::linordered_idom) \<Rightarrow> 'a \<Rightarrow> 'a list \<Rightarrow> 'a list" where
  "insort_cmp cmp x [] = [x]"
| "insort_cmp cmp x (y # ys) = (if cmp x y \<le> 0 then x # y # ys else y # insort_cmp cmp x ys)"

definition js_sort :: "('a \<Rightarrow> 'a \<Rightarrow> 'b::linordered_idom) \<Rightarrow> 'a list \<Rightarrow> 'a list" where
  "js_sort cmp xs = foldr (insort_cmp cmp) xs []"

text \<open>A \<open>Set\<close> keeps its elements in insertion order, each once.\<close>

definition set_add :: "'a \<Rightarrow> 'a list \<Rightarrow> 'a list" where
  "set_add x s = (if x \<in> set s then s else s @ [x])"

definition new_Set :: "'a list \<Rightarrow> 'a list" where
  "new_Set xs = fold set_add xs []"

text \<open>
  \<open>toLowerCase\<close> and \<open>normalize\<close> read the Unicode tables of the platform; they are
  parameters of the model.
\<close>

record unicode =
  toLowerCase :: "jsstring \<Rightarrow> jsstring"
  normalizeNFKD :: "jsstring \<Rightarrow> jsstring"
  normalizeNFC :: "jsstring \<Rightarrow> jsstring"

section \<open>Data model\<close>

datatype NameType = GENERIC | ASHKENAZI | SEPHARDIC

datatype RuleType = EXACT | APPROX

record Rule =
  pattern :: jsstring
  outputs :: "jsstring list"
  priority :: int
  lctx :: "(jsstring \<Rightarrow> bool) option"
  rctx :: "(jsstring \<Rightarrow> bool) option"
  consumes :: "int option"

record LanguageRules =
  language :: jsstring
  rules :: "Rule list"

record LanguageHeuristic =
  h_language :: jsstring
  weight :: rat
  predicate :: "jsstring \<Rightarrow> bool"
  transliterator :: "(jsstring \<Rightarrow> jsstring) option"

text \<open>
  \<open>mergerTable\<close> is the list of the entries of the object in insertion order;
  \<open>languageRuleSets\<close> is a map from language ids.
\<close>

record BMPMConfig =
  nameType :: NameType
  ruleType :: RuleType
  maxExpansions :: int
  minKeyLength :: int
  collapseDuplicates :: bool
  languageHeuristics :: "LanguageHeuristic list"
  languageRuleSets :: "jsstring \<Rightarrow> LanguageRules option"
  mergerTable :: "(jsstring \<times> jsstring) list option"
  topLanguages :: "int option"

record EncodeState =
  pos :: int
  key :: jsstring

record EncodeResult =
  r_language :: jsstring
  keys :: "jsstring list"

section \<open>Utilities\<close>

definition is_az :: "jschar \<Rightarrow> bool" where
  "is_az c \<longleftrightarrow> 0x61 \<le> c \<and> c \<le> 0x7A"

definition preprocess :: "unicode \<Rightarrow> jsstring \<Rightarrow> jsstring" where
  "preprocess U raw =
     (let lower = toLowerCase U raw;
          nfkd = normalizeNFKD U lower;
          noMarks = filter (\<lambda>c. \<not> (0x300 \<le> c \<and> c \<le> 0x36F)) nfkd;
          lettersSpaces =
            replace_runs
              (\<lambda>c. \<not> (is_az c \<or> c = 0xDF \<or> c = 0xE4 \<or> c = 0xF6 \<or> c = 0xFC \<or> is_space c))
              (js '' '') False noMarks;
          mapped =
            replace_char 0xFC (js ''ue'')
              (replace_char 0xF6 (js ''oe'')
                (replace_char 0xE4 (js ''ae'')
                  (replace_char 0xDF (js ''ss'') lettersSpaces)))
      in trim (replace_runs is_space (js '' '') False mapped))"

text \<open>
  \<open>isVowel(ch)\<close> tests the regular expression on the string form of its argument; for
  \<open>undefined\<close> that is the word "undefined", which has a vowel.
\<close>

definition isVowel :: "jschar option \<Rightarrow> bool" where
  "isVowel ch =
     (case ch of
        None \<Rightarrow> True
      | Some c \<Rightarrow> c = 0x61 \<or> c = 0x65 \<or> c = 0x69 \<or> c = 0x6F \<or> c = 0x75 \<or> c = 0x79)"

fun collapse_from :: "jschar \<Rightarrow> jsstring \<Rightarrow> jsstring" where
  "collapse_from prev [] = []"
| "collapse_from prev (c # cs) =
     (if c \<noteq> prev then c # collapse_from c cs else collapse_from c cs)"

fun collapseRepeats :: "jsstring \<Rightarrow> jsstring" where
  "collapseRepeats [] = []"
| "collapseRepeats (c # cs) = c # collapse_from c cs"

text \<open>The \<open>while\<close> loop of \<open>applyMergerTable\<close>; it need not end (an empty symbol).\<close>

partial_function (option)
  merge_loop :: "(jsstring \<times> jsstring) list \<Rightarrow> jsstring \<Rightarrow> nat \<Rightarrow> jsstring \<Rightarrow> jsstring option"
where
  "merge_loop symbols k i out =
     (if i < length k then
        (case find (\<lambda>e. startsWith k (fst e) (int i)) symbols of
           Some e \<Rightarrow> merge_loop symbols k (i + length (fst e)) (out @ snd e)
         | None \<Rightarrow> merge_loop symbols k (i + 1) (out @ [k ! i]))
      else Some out)"

definition applyMergerTable :: "jsstring \<Rightarrow> (jsstring \<times> jsstring) list option \<Rightarrow> jsstring option" where
  "applyMergerTable k merger =
     (case merger of
        None \<Rightarrow> Some k
      | Some m \<Rightarrow>
          merge_loop
            (js_sort (\<lambda>a b. int (length (fst b)) - int (length (fst a))) m) k 0 [])"

definition fallbackMapChar :: "jschar option \<Rightarrow> RuleType \<Rightarrow> jsstring" where
  "fallbackMapChar ch rt = (if rt = EXACT \<and> isVowel ch then js ''A'' else [])"

section \<open>Language detection\<close>

definition defaults :: "NameType \<Rightarrow> (jsstring \<times> rat) list" where
  "defaults nt =
     (case nt of
        GENERIC \<Rightarrow> [(js ''english'', 1), (js ''german'', 1), (js ''french'', 1)]
      | ASHKENAZI \<Rightarrow>
          [(js ''yiddish'', 2), (js ''german'', 1), (js ''polish'', 1), (js ''russian'', 1),
           (js ''hebrew'', 1)]
      | SEPHARDIC \<Rightarrow> [(js ''spanish'', 2), (js ''portuguese'', 1), (js ''hebrew'', 1)])"

definition detectLanguages :: "jsstring \<Rightarrow> BMPMConfig \<Rightarrow> (jsstring \<times> rat) list" where
  "detectLanguages name cfg =
     (let fired = map (\<lambda>h. (h_language h, weight h))
                    (filter (\<lambda>h. predicate h name) (languageHeuristics cfg));
          candidates = (if fired = [] then defaults (nameType cfg) else fired);
          total = foldl (\<lambda>acc c. acc + snd c) 0 candidates;
          normalized =
            (if total \<noteq> 0 then map (\<lambda>c. (fst c, snd c / total)) candidates else candidates);
          sorted = js_sort (\<lambda>a b. snd b - snd a) normalized
      in case topLanguages cfg of
           None \<Rightarrow> sorted
         | Some n \<Rightarrow> if n = 0 then sorted else slice_to_list sorted n)"

definition transliterateForLanguage :: "jsstring \<Rightarrow> jsstring \<Rightarrow> BMPMConfig \<Rightarrow> jsstring" where
  "transliterateForLanguage name lang cfg =
     (case find (\<lambda>x. h_language x = lang) (languageHeuristics cfg) of
        None \<Rightarrow> name
      | Some h \<Rightarrow> (case transliterator h of None \<Rightarrow> name | Some t \<Rightarrow> t name))"

section \<open>Encoding engine\<close>

text \<open>\<open>r.consumes ?? r.pattern.length\<close>\<close>

definition consumed :: "Rule \<Rightarrow> int" where
  "consumed r = (case consumes r of Some c \<Rightarrow> c | None \<Rightarrow> int (length (pattern r)))"

definition rule_matches :: "jsstring \<Rightarrow> int \<Rightarrow> Rule \<Rightarrow> bool" where
  "rule_matches text p r \<longleftrightarrow>
     startsWith text (pattern r) p
     \<and> (case lctx r of Some f \<Rightarrow> f (slice_to text p) | None \<Rightarrow> True)
     \<and> (case rctx r of Some f \<Rightarrow> f (slice_from text (p + consumed r)) | None \<Rightarrow> True)"

text \<open>\<open>Math.max(...xs)\<close> on a non-empty list.\<close>

definition max_of :: "int list \<Rightarrow> int" where
  "max_of xs = fold max (tl xs) (hd xs)"

definition selectApplicableRules :: "jsstring \<Rightarrow> int \<Rightarrow> Rule list \<Rightarrow> Rule list" where
  "selectApplicableRules text p rs =
     (let matches = filter (rule_matches text p) rs
      in if matches = [] then []
         else
           (let maxPr = max_of (map priority matches);
                top = filter (\<lambda>m. priority m = maxPr) matches;
                maxLen = max_of (map consumed top)
            in filter (\<lambda>m. consumed m = maxLen) top))"

definition frontier_cmp :: "EncodeState \<Rightarrow> EncodeState \<Rightarrow> int" where
  "frontier_cmp a b =
     (if pos b - pos a \<noteq> 0 then pos b - pos a
      else int (length (key a)) - int (length (key b)))"

definition pruneFrontier :: "EncodeState list \<Rightarrow> EncodeState list" where
  "pruneFrontier fr = take 1024 (js_sort frontier_cmp fr)"

definition finalizeKey :: "jsstring \<Rightarrow> BMPMConfig \<Rightarrow> jsstring option" where
  "finalizeKey k cfg =
     (if ruleType cfg = APPROX then
        map_option collapseRepeats (applyMergerTable k (mergerTable cfg))
      else Some k)"

text \<open>
  The variables of one call of \<open>encodeWithRules\<close>. One pass of the innermost loop is
  \<open>push_output\<close>, on the pair of the counter and the frontier.
\<close>

record LoopState =
  results :: "jsstring list"
  expansions :: int
  frontier :: "EncodeState list"

definition push_output ::
  "BMPMConfig \<Rightarrow> EncodeState \<Rightarrow> int \<Rightarrow> jsstring \<Rightarrow> int \<times> EncodeState list \<Rightarrow> int \<times> EncodeState list"
where
  "push_output cfg state consume outSym ef =
     (let newKey = key state @ outSym;
          newKey' = (if collapseDuplicates cfg then collapseRepeats newKey else newKey);
          fr = snd ef @ [\<lparr>pos = pos state + consume, key = newKey'\<rparr>];
          e = fst ef + 1
      in (e, if e > maxExpansions cfg then pruneFrontier fr else fr))"

definition apply_rules ::
  "BMPMConfig \<Rightarrow> EncodeState \<Rightarrow> Rule list \<Rightarrow> int \<times> EncodeState list \<Rightarrow> int \<times> EncodeState list"
where
  "apply_rules cfg state applicable ef =
     fold (\<lambda>rule. fold (push_output cfg state (consumed rule)) (outputs rule)) applicable ef"

text \<open>
  One pass of the \<open>while\<close> loop, after \<open>frontier.shift()\<close> has given \<open>state\<close> and left
  \<open>rest\<close>. It has no value where finalization does not return.
\<close>

definition step ::
  "jsstring \<Rightarrow> Rule list \<Rightarrow> BMPMConfig \<Rightarrow> LoopState \<Rightarrow> EncodeState \<Rightarrow> EncodeState list
     \<Rightarrow> LoopState option"
where
  "step text rs cfg ls state rest =
     (if pos state \<ge> int (length text) then
        (case finalizeKey (key state) cfg of
           None \<Rightarrow> None
         | Some f \<Rightarrow>
             Some (ls\<lparr>frontier := rest,
                      results := (if int (length f) \<ge> minKeyLength cfg
                                  then set_add f (results ls) else results ls)\<rparr>))
      else
        (let ch = char_at text (pos state)
         in if ch = Some 0x20 then
              Some (ls\<lparr>frontier := rest @ [\<lparr>pos = pos state + 1, key = key state\<rparr>]\<rparr>)
            else
              (let applicable = selectApplicableRules text (pos state) rs
               in if applicable = [] then
                    Some (ls\<lparr>frontier :=
                               rest @ [\<lparr>pos = pos state + 1,
                                        key = key state @ fallbackMapChar ch (ruleType cfg)\<rparr>]\<rparr>)
                  else
                    (let ef = apply_rules cfg state applicable (expansions ls, rest)
                     in Some (ls\<lparr>expansions := fst ef, frontier := snd ef\<rparr>)))))"

partial_function (option)
  encode_loop :: "jsstring \<Rightarrow> Rule list \<Rightarrow> BMPMConfig \<Rightarrow> LoopState \<Rightarrow> jsstring list option"
where
  "encode_loop text rs cfg ls =
     (case frontier ls of
        [] \<Rightarrow> Some (results ls)
      | state # rest \<Rightarrow>
          Option.bind (step text rs cfg ls state rest) (encode_loop text rs cfg))"

definition encodeWithRules :: "jsstring \<Rightarrow> LanguageRules \<Rightarrow> BMPMConfig \<Rightarrow> jsstring list option" where
  "encodeWithRules text langRules cfg =
     encode_loop text (rules langRules) cfg
       \<lparr>results = [], expansions = 0, frontier = [\<lparr>pos = 0, key = []\<rparr>]\<rparr>"

section \<open>Top-level API\<close>

text \<open>
  \<open>cfg.languageRuleSets[language]\<close> reads a property of an object: it finds the entry
  registered under the id, or else, for the names that every object inherits from
  \<open>Object.prototype\<close>, the inherited value (a function, or the prototype itself for
  \<open>__proto__\<close>), which is truthy and has no \<open>rules\<close>; for any other id it is
  \<open>undefined\<close> (\<open>None\<close> here).
\<close>

datatype found_rules = Registered LanguageRules | Inherited

definition inherited_name :: "jsstring \<Rightarrow> bool" where
  "inherited_name l \<longleftrightarrow>
     l \<in> set (map js
       [''constructor'', ''__proto__'', ''hasOwnProperty'', ''isPrototypeOf'',
        ''propertyIsEnumerable'', ''toLocaleString'', ''toString'', ''valueOf'',
        ''__defineGetter__'', ''__defineSetter__'', ''__lookupGetter__'',
        ''__lookupSetter__''])"

definition lookup_rules :: "BMPMConfig \<Rightarrow> jsstring \<Rightarrow> found_rules option" where
  "lookup_rules cfg l =
     (case languageRuleSets cfg l of
        Some lr \<Rightarrow> Some (Registered lr)
      | None \<Rightarrow> if inherited_name l then Some Inherited else None)"

text \<open>
  \<open>encodeWithRules\<close> on a value whose \<open>rules\<close> is \<open>undefined\<close>: the loop passes over
  spaces, and at the first other character \<open>selectApplicableRules\<close> iterates over
  \<open>undefined\<close>, which raises a TypeError; a text of spaces only reaches finalization with
  the empty key. A call that raises returns no value: \<open>None\<close>, as for a call that never
  ends.
\<close>

definition encodeWithRules_undefined :: "jsstring \<Rightarrow> BMPMConfig \<Rightarrow> jsstring list option" where
  "encodeWithRules_undefined tx cfg =
     (if list_all (\<lambda>c. c = 0x20) tx then
        (case finalizeKey [] cfg of
           None \<Rightarrow> None
         | Some f \<Rightarrow> Some (if int (length f) \<ge> minKeyLength cfg then [f] else []))
      else None)"

fun encode_found :: "jsstring \<Rightarrow> found_rules \<Rightarrow> BMPMConfig \<Rightarrow> jsstring list option" where
  "encode_found tx (Registered lr) cfg = encodeWithRules tx lr cfg"
| "encode_found tx Inherited cfg = encodeWithRules_undefined tx cfg"

text \<open>
  The \<open>for\<close> loop of \<open>bmpmEncode\<close> over the detected languages. It returns no value
  when an encoding does not (it never ends, or it raises).
\<close>

fun encode_langs ::
  "unicode \<Rightarrow> BMPMConfig \<Rightarrow> jsstring \<Rightarrow> (jsstring \<times> rat) list \<Rightarrow> EncodeResult list
     \<Rightarrow> EncodeResult list option"
where
  "encode_langs U cfg rawForDetect [] out = Some out"
| "encode_langs U cfg rawForDetect (l # langs) out =
     (case lookup_rules cfg (fst l) of
        None \<Rightarrow> encode_langs U cfg rawForDetect langs out
      | Some found \<Rightarrow>
          (let translit = transliterateForLanguage rawForDetect (fst l) cfg;
               norm = preprocess U translit
           in if norm = [] then encode_langs U cfg rawForDetect langs out
              else
                (case encode_found norm found cfg of
                   None \<Rightarrow> None
                 | Some ks \<Rightarrow>
                     encode_langs U cfg rawForDetect langs
                       (if ks \<noteq> [] then out @ [\<lparr>r_language = fst l, keys = ks\<rparr>] else out))))"

definition bmpmEncode :: "unicode \<Rightarrow> jsstring \<Rightarrow> BMPMConfig \<Rightarrow> EncodeResult list option" where
  "bmpmEncode U raw cfg =
     (if trim raw = [] then Some []
      else
        (let rawForDetect = toLowerCase U (normalizeNFC U raw);
             langs = detectLanguages rawForDetect cfg
         in encode_langs U cfg rawForDetect langs []))"

text \<open>\<open>new Set([...A.flatMap((r) => [...r.keys])])\<close>\<close>

definition all_keys :: "EncodeResult list \<Rightarrow> jsstring list" where
  "all_keys A = new_Set (concat (map keys A))"

definition bmpmMatch :: "unicode \<Rightarrow> jsstring \<Rightarrow> jsstring \<Rightarrow> BMPMConfig \<Rightarrow> bool option" where
  "bmpmMatch U a b cfg =
     (case bmpmEncode U a cfg of
        None \<Rightarrow> None
      | Some A \<Rightarrow>
          (case bmpmEncode U b cfg of
             None \<Rightarrow> None
           | Some B \<Rightarrow>
               Some (let setA = all_keys A; setB = all_keys B
                     in list_ex (\<lambda>k. k \<in> set setB) setA)))"

definition jaccard :: "jsstring list \<Rightarrow> jsstring list \<Rightarrow> rat" where
  "jaccard setA setB =
     (let inter = length (filter (\<lambda>x. x \<in> set setB) setA);
          union = length (new_Set (setA @ setB))
      in if union \<noteq> 0 then of_nat inter / of_nat union else 0)"

definition bmpmSimilarity :: "unicode \<Rightarrow> jsstring \<Rightarrow> jsstring \<Rightarrow> BMPMConfig \<Rightarrow> rat option" where
  "bmpmSimilarity U a b cfg =
     (case bmpmEncode U a cfg of
        None \<Rightarrow> None
      | Some A \<Rightarrow>
          (case bmpmEncode U b cfg of
             None \<Rightarrow> None
           | Some B \<Rightarrow> Some (jaccard (all_keys A) (all_keys B))))"

section \<open>What the specification says, in its own words\<close>

text \<open>
  A rule survives at a cursor when it matches there, no matching rule has a higher
  priority, and no matching rule of the same priority consumes more.
\<close>

definition survives :: "jsstring \<Rightarrow> int \<Rightarrow> Rule set \<Rightarrow> Rule \<Rightarrow> bool" where
  "survives text p R r \<longleftrightarrow>
     rule_matches text p r
     \<and> (\<forall>m\<in>R. rule_matches text p m \<longrightarrow> priority m \<le> priority r)
     \<and> (\<forall>m\<in>R. rule_matches text p m \<and> priority m = priority r \<longrightarrow> consumed m \<le> consumed r)"

section \<open>Example data\<close>

text \<open>A platform that knows ASCII only.\<close>

definition ascii_unicode :: unicode where
  "ascii_unicode =
     \<lparr>toLowerCase = map (\<lambda>c. if 0x41 \<le> c \<and> c \<le> 0x5A then c + 0x20 else c),
      normalizeNFKD = (\<lambda>s. s),
      normalizeNFC = (\<lambda>s. s)\<rparr>"

text \<open>A rule with no context predicate that consumes its pattern.\<close>

definition plain_rule :: "string \<Rightarrow> string list \<Rightarrow> int \<Rightarrow> Rule" where
  "plain_rule p outs pr =
     \<lparr>pattern = js p, outputs = map js outs, priority = pr, lctx = None, rctx = None,
      consumes = Some (int (length p))\<rparr>"

definition demo_rules :: LanguageRules where
  "demo_rules =
     \<lparr>language = js ''english'',
      rules = [plain_rule ''sch'' [''X''] 10, plain_rule ''sc'' [''SK''] 10, plain_rule ''s'' [''S''] 1,
               plain_rule ''c'' [''K'', ''S''] 1, plain_rule ''t'' [''T''] 1]\<rparr>"

definition demo_exact :: BMPMConfig where
  "demo_exact =
     \<lparr>nameType = GENERIC, ruleType = EXACT, maxExpansions = 2, minKeyLength = 1,
      collapseDuplicates = False, languageHeuristics = [],
      languageRuleSets = [js ''english'' \<mapsto> demo_rules],
      mergerTable = None, topLanguages = None\<rparr>"

declare merge_loop.simps [code]
declare encode_loop.simps [code]

section \<open>Termination measure\<close>

text \<open>
  The distance of a frontier element from the end of the text, and the multiset of the
  distances of a frontier: it decreases with every pass of the loop when rules consume
  at least one character.
\<close>

definition weight_of :: "jsstring \<Rightarrow> EncodeState \<Rightarrow> nat" where
  "weight_of text s = nat (int (length text) + 1 - pos s)"

definition weights :: "jsstring \<Rightarrow> EncodeState list \<Rightarrow> nat multiset" where
  "weights text fr = image_mset (weight_of text) (mset fr)"

text \<open>No symbol of the merger table is empty, where the table is used.\<close>

definition merger_ok :: "BMPMConfig \<Rightarrow> bool" where
  "merger_ok cfg \<longleftrightarrow>
     (ruleType cfg = APPROX \<longrightarrow> (\<forall>m. mergerTable cfg = Some m \<longrightarrow> (\<forall>e\<in>set m. fst e \<noteq> [])))"

section \<open>States of the loop\<close>

text \<open>The states of the \<open>while\<close> loop of \<open>encodeWithRules\<close> at the head of a pass.\<close>

inductive reachable :: "jsstring \<Rightarrow> Rule list \<Rightarrow> BMPMConfig \<Rightarrow> LoopState \<Rightarrow> bool"
  for t :: jsstring and rs :: "Rule list" and cfg :: BMPMConfig
where
  start: "reachable t rs cfg \<lparr>results = [], expansions = 0, frontier = [\<lparr>pos = 0, key = []\<rparr>]\<rparr>"
| pass: "reachable t rs cfg ls \<Longrightarrow> frontier ls = state # rest
          \<Longrightarrow> step t rs cfg ls state rest = Some ls' \<Longrightarrow> reachable t rs cfg ls'"

definition frontier_bound :: "BMPMConfig \<Rightarrow> nat" where
  "frontier_bound cfg = max 1024 (nat (maxExpansions cfg + 1))"

text \<open>
  What holds of the counter and the frontier inside the innermost loop, and at the head
  of a pass.
\<close>

definition counted :: "BMPMConfig \<Rightarrow> int \<times> EncodeState list \<Rightarrow> bool" where
  "counted cfg ef \<longleftrightarrow>
     0 \<le> fst ef
     \<and> (fst ef \<le> maxExpansions cfg \<longrightarrow> length (snd ef) \<le> nat (fst ef))
     \<and> (maxExpansions cfg < fst ef \<longrightarrow> length (snd ef) \<le> 1024)"

definition counted_head :: "BMPMConfig \<Rightarrow> LoopState \<Rightarrow> bool" where
  "counted_head cfg ls \<longleftrightarrow>
     0 \<le> expansions ls
     \<and> (expansions ls \<le> maxExpansions cfg \<longrightarrow> length (frontier ls) \<le> nat (expansions ls) + 1)
     \<and> (maxExpansions cfg < expansions ls \<longrightarrow> length (frontier ls) \<le> 1024)"

text \<open>A rule that consumes nothing.\<close>

definition zero_rule :: Rule where
  "zero_rule =
     \<lparr>pattern = js ''a'', outputs = [js ''''], priority = 1, lctx = None, rctx = None,
      consumes = Some 0\<rparr>"

text \<open>Every rule of every registered rule set consumes at least one character.\<close>

definition rules_consume :: "BMPMConfig \<Rightarrow> bool" where
  "rules_consume cfg \<longleftrightarrow>
     (\<forall>l lr. languageRuleSets cfg l = Some lr \<longrightarrow> (\<forall>r\<in>set (rules lr). 1 \<le> consumed r))"

text \<open>
  No language that the configuration can detect without having it registered bears a
  name inherited from \<open>Object.prototype\<close>.
\<close>

definition lookups_defined :: "BMPMConfig \<Rightarrow> bool" where
  "lookups_defined cfg \<longleftrightarrow>
     (\<forall>name. \<forall>l\<in>set (detectLanguages name cfg). lookup_rules cfg (fst l) \<noteq> Some Inherited)"

definition demo_approx :: BMPMConfig where
  "demo_approx =
     demo_exact\<lparr>ruleType := APPROX, collapseDuplicates := True, minKeyLength := 2,
       mergerTable := Some [(js ''K'', js ''C''), (js ''SK'', js ''X'')]\<rparr>"

text \<open>Every key is at least as long as the configuration asks.\<close>

definition long_enough :: "BMPMConfig \<Rightarrow> jsstring list \<Rightarrow> bool" where
  "long_enough cfg ks \<longleftrightarrow> (\<forall>k\<in>set ks. minKeyLength cfg \<le> int (length k))"

section \<open>Normal form of names\<close>

text \<open>
  Letters a to z and single spaces only; the flag says that a space may not come first.
\<close>

fun single_spaced :: "bool \<Rightarrow> jsstring \<Rightarrow> bool" where
  "single_spaced after_space [] = True"
| "single_spaced after_space (c # cs) =
     (if c = 0x20 then \<not> after_space \<and> single_spaced True cs
      else is_az c \<and> single_spaced False cs)"

text \<open>
  Only lowercase ASCII letters, separated by single spaces, with no space at either end.
\<close>

definition clean :: "jsstring \<Rightarrow> bool" where
  "clean s \<longleftrightarrow> single_spaced True s \<and> (s \<noteq> [] \<longrightarrow> last s \<noteq> 0x20)"

section \<open>The specification of pruning; configurations in APPROX mode\<close>

text \<open>
  The pruning of the specification: the elements sorted by descending cursor position
  and, for equal positions, by ascending key length (a stable sort on the pair of the
  negated position and the length, in lexicographic order), cut to the first 1024.
\<close>

definition spec_prune :: "EncodeState list \<Rightarrow> EncodeState list" where
  "spec_prune fr = take 1024 (sort_key (\<lambda>s. (- pos s, length (key s))) fr)"

text \<open>
  The configuration that differs from an EXACT one by the APPROX rule type, duplicate
  collapsing and a merger table.
\<close>

definition approx_of :: "BMPMConfig \<Rightarrow> (jsstring \<times> jsstring) list \<Rightarrow> BMPMConfig" where
  "approx_of cfg m = cfg\<lparr>ruleType := APPROX, collapseDuplicates := True, mergerTable := Some m\<rparr>"

text \<open>
  The specification's account of a pass that applies rules: the element pushed for an
  output of a rule; one push, which adds one to the counter and, when the counter then
  exceeds \<open>maxExpansions\<close>, replaces the frontier by its pruning; and the elements that
  the surviving rules push, rule by rule and output by output.
\<close>

definition new_element :: "BMPMConfig \<Rightarrow> EncodeState \<Rightarrow> Rule \<Rightarrow> jsstring \<Rightarrow> EncodeState" where
  "new_element cfg state r outSym =
     \<lparr>pos = pos state + consumed r,
      key = (if collapseDuplicates cfg then collapseRepeats (key state @ outSym)
             else key state @ outSym)\<rparr>"

definition spec_push :: "BMPMConfig \<Rightarrow> EncodeState \<Rightarrow> int \<times> EncodeState list \<Rightarrow> int \<times> EncodeState list" where
  "spec_push cfg x ef =
     (fst ef + 1,
      if maxExpansions cfg < fst ef + 1 then spec_prune (snd ef @ [x]) else snd ef @ [x])"

definition pushed :: "BMPMConfig \<Rightarrow> EncodeState \<Rightarrow> Rule list \<Rightarrow> EncodeState list" where
  "pushed cfg state app = concat (map (\<lambda>r. map (new_element cfg state r) (outputs r)) app)"

text \<open>The rules that a pass on \<open>state\<close> applies: none at the end, on a space, or on a fallback.\<close>

definition applied :: "jsstring \<Rightarrow> Rule list \<Rightarrow> EncodeState \<Rightarrow> Rule list" where
  "applied tx rs state =
     (if pos state < int (length tx) \<and> char_at tx (pos state) \<noteq> Some 0x20
      then selectApplicableRules tx (pos state) rs else [])"

definition frontier_order :: "EncodeState \<Rightarrow> int \<times> nat" where
  "frontier_order s = (- pos s, length (key s))"

text \<open>
  A configuration in APPROX mode with a merger table, every other field as in \<open>cfg\<close>.
\<close>

definition approx_mode :: "BMPMConfig \<Rightarrow> (jsstring \<times> jsstring) list \<Rightarrow> BMPMConfig" where
  "approx_mode cfg m = cfg\<lparr>ruleType := APPROX, mergerTable := Some m\<rparr>"

text \<open>
  At every vowel of every text some rule of the rule set applies, so that the fallback
  never meets a vowel.
\<close>

definition vowels_covered_rules :: "Rule list \<Rightarrow> bool" where
  "vowels_covered_rules rs \<longleftrightarrow>
     (\<forall>tx p. 0 \<le> p \<and> p < int (length tx) \<and> isVowel (char_at tx p)
        \<longrightarrow> selectApplicableRules tx p rs \<noteq> [])"

definition vowels_covered :: "BMPMConfig \<Rightarrow> bool" where
  "vowels_covered cfg \<longleftrightarrow>
     (\<forall>l lr. languageRuleSets cfg l = Some lr \<longrightarrow> vowels_covered_rules (rules lr))"

text \<open>Folding a key of the minimal length leaves a key of the minimal length.\<close>

definition keeps_length :: "BMPMConfig \<Rightarrow> (jsstring \<times> jsstring) list \<Rightarrow> bool" where
  "keeps_length cfg m \<longleftrightarrow>
     minKeyLength cfg \<le> 0 \<or> (minKeyLength cfg \<le> 1 \<and> (\<forall>e\<in>set m. snd e \<noteq> []))"

text \<open>Every key of the first list has its finalized form under \<open>cfg\<close> in the second.\<close>

definition folded_into :: "BMPMConfig \<Rightarrow> jsstring list \<Rightarrow> jsstring list \<Rightarrow> bool" where
  "folded_into cfg ks ks' \<longleftrightarrow> (\<forall>k\<in>set ks. \<exists>f. finalizeKey k cfg = Some f \<and> f \<in> set ks')"

text \<open>A rule set with a rule for every vowel, and its configuration.\<close>

definition covered_rules :: LanguageRules where
  "covered_rules =
     \<lparr>language = js ''english'',
      rules = [plain_rule ''c'' [''K'', ''S'', ''Z''] 1, plain_rule ''k'' [''K'', ''S''] 1,
               plain_rule ''a'' [''A''] 1, plain_rule ''e'' [''A''] 1, plain_rule ''i'' [''A''] 1,
               plain_rule ''o'' [''A''] 1, plain_rule ''u'' [''A''] 1, plain_rule ''y'' [''A''] 1]\<rparr>"

definition covered_exact :: BMPMConfig where
  "covered_exact = demo_exact\<lparr>languageRuleSets := [js ''english'' \<mapsto> covered_rules]\<rparr>"

text \<open>A configuration whose only heuristic detects a language named as an inherited property.\<close>

definition constructor_cfg :: BMPMConfig where
  "constructor_cfg =
     demo_exact\<lparr>languageHeuristics :=
       [\<lparr>h_language = js ''constructor'', weight = 1, predicate = (\<lambda>s. True),
         transliterator = None\<rparr>]\<rparr>"

section \<open>Sets of keys\<close>

lemma set_fold_set_add: "set (fold set_add xs acc) = set acc \<union> set xs"
  by (induction xs arbitrary: acc) (auto simp: set_add_def)

lemma distinct_fold_set_add: "distinct acc \<Longrightarrow> distinct (fold set_add xs acc)"
  by (induction xs arbitrary: acc) (auto simp: set_add_def)

lemma set_new_Set: "set (new_Set xs) = set xs"
  by (simp add: new_Set_def set_fold_set_add)

lemma distinct_new_Set: "distinct (new_Set xs)"
  by (simp add: new_Set_def distinct_fold_set_add)

lemma length_new_Set: "length (new_Set xs) = card (set xs)"
  using distinct_card [OF distinct_new_Set, of xs] by (simp add: set_new_Set)

lemma length_filter_mem:
  assumes "distinct xs"
  shows "length (filter (\<lambda>x. x \<in> B) xs) = card (set xs \<inter> B)"
proof -
  have "set (filter (\<lambda>x. x \<in> B) xs) = set xs \<inter> B" by auto
  moreover have "distinct (filter (\<lambda>x. x \<in> B) xs)" using assms by simp
  ultimately show ?thesis using distinct_card by metis
qed

lemma jaccard_eq:
  "distinct A \<Longrightarrow>
   jaccard A B = (if set A \<union> set B = {} then 0
                  else of_nat (card (set A \<inter> set B)) / of_nat (card (set A \<union> set B)))"
  by (simp add: jaccard_def Let_def length_new_Set length_filter_mem)

lemma jaccard_range:
  assumes d: "distinct A"
  shows "0 \<le> jaccard A B \<and> jaccard A B \<le> 1"
proof -
  have le: "card (set A \<inter> set B) \<le> card (set A \<union> set B)"
    by (rule card_mono) auto
  show ?thesis
  proof (cases "set A \<union> set B = {}")
    case True
    then show ?thesis using d by (simp add: jaccard_eq)
  next
    case False
    then have "0 < card (set A \<union> set B)" by (simp add: card_gt_0_iff)
    then show ?thesis using d le False by (simp add: jaccard_eq divide_le_eq_1)
  qed
qed

lemma jaccard_pos:
  assumes d: "distinct A"
  shows "0 < jaccard A B \<longleftrightarrow> set A \<inter> set B \<noteq> {}"
proof (cases "set A \<inter> set B = {}")
  case True
  then show ?thesis using d by (simp add: jaccard_eq)
next
  case False
  then have "0 < card (set A \<inter> set B)" by (simp add: card_gt_0_iff)
  moreover have "0 < card (set A \<union> set B)" using False by (auto simp: card_gt_0_iff)
  ultimately show ?thesis using d False by (auto simp: jaccard_eq)
qed

lemma jaccard_self: "distinct A \<Longrightarrow> A \<noteq> [] \<Longrightarrow> jaccard A A = 1"
  by (simp add: jaccard_eq card_gt_0_iff)

lemma jaccard_sym: "distinct A \<Longrightarrow> distinct B \<Longrightarrow> jaccard A B = jaccard B A"
  by (simp add: jaccard_eq Int_commute Un_commute)

lemma list_ex_mem: "list_ex (\<lambda>k. k \<in> B) xs \<longleftrightarrow> set xs \<inter> B \<noteq> {}"
  by (auto simp: list_ex_iff)

lemma set_all_keys: "set (all_keys A) = (\<Union>r\<in>set A. set (keys r))"
  by (simp add: all_keys_def set_new_Set)

lemma distinct_all_keys: "distinct (all_keys A)"
  by (simp add: all_keys_def distinct_new_Set)

section \<open>Empty input\<close>

lemma dropWhile_all: "\<forall>c\<in>set s. P c \<Longrightarrow> dropWhile P s = []"
  by (induction s) auto

lemma trim_all_space: "\<forall>c\<in>set s. is_space c \<Longrightarrow> trim s = []"
  by (simp add: trim_def dropWhile_all)

text \<open>
  C8: for every configuration, \<open>bmpmEncode\<close> returns the empty list, and does return, when
  the input is empty or made of whitespace only.
\<close>

theorem bmpmEncode_blank:
  "(\<forall>c\<in>set s. is_space c) \<Longrightarrow> bmpmEncode U s cfg = Some []"
  by (simp add: bmpmEncode_def trim_all_space)

theorem bmpmEncode_blank_witness:
  "bmpmEncode ascii_unicode (js '''') demo_exact = Some []
   \<and> bmpmEncode ascii_unicode (js ''   '') demo_exact = Some []"
proof -
  have e: "\<forall>c\<in>set (js ''''). is_space c" by (simp add: js_def)
  have w: "\<forall>c\<in>set (js ''   ''). is_space c" by (simp add: js_def is_space_def)
  show ?thesis
    using bmpmEncode_blank [OF e, of ascii_unicode demo_exact]
      bmpmEncode_blank [OF w, of ascii_unicode demo_exact]
    by simp
qed

section \<open>Every pass of the loop brings the frontier closer to the end\<close>

lemma mset_insort_cmp: "mset (insort_cmp cmp x ys) = add_mset x (mset ys)"
  by (induction ys) auto

lemma mset_js_sort: "mset (js_sort cmp xs) = mset xs"
  by (induction xs) (auto simp: js_sort_def mset_insort_cmp)

lemma set_js_sort: "set (js_sort cmp xs) = set xs"
  using mset_js_sort [of cmp xs] by (metis set_mset_mset)

lemma mset_take_subset: "mset (take n xs) \<subseteq># mset xs"
proof -
  have "mset xs = mset (take n xs) + mset (drop n xs)"
    by (metis append_take_drop_id mset_append)
  then show ?thesis by simp
qed

lemma mset_pruneFrontier: "mset (pruneFrontier fr) \<subseteq># mset fr"
  using mset_take_subset [of 1024 "js_sort frontier_cmp fr"]
  by (simp add: pruneFrontier_def mset_js_sort)

lemma weights_pruneFrontier: "weights text (pruneFrontier fr) \<subseteq># weights text fr"
  unfolding weights_def by (rule image_mset_subseteq_mono [OF mset_pruneFrontier])

lemma weights_push_output:
  "\<exists>k. weights text (snd (push_output cfg state c outSym ef))
          \<subseteq># add_mset (weight_of text \<lparr>pos = pos state + c, key = k\<rparr>) (weights text (snd ef))"
proof -
  define k where
    "k = (if collapseDuplicates cfg then collapseRepeats (key state @ outSym) else key state @ outSym)"
  define fr where "fr = snd ef @ [\<lparr>pos = pos state + c, key = k\<rparr>]"
  have w: "weights text fr
      = add_mset (weight_of text \<lparr>pos = pos state + c, key = k\<rparr>) (weights text (snd ef))"
    by (simp add: fr_def weights_def)
  have "snd (push_output cfg state c outSym ef) = pruneFrontier fr
      \<or> snd (push_output cfg state c outSym ef) = fr"
    by (simp add: push_output_def Let_def fr_def k_def)
  then have "weights text (snd (push_output cfg state c outSym ef)) \<subseteq># weights text fr"
    using weights_pruneFrontier [of "text" fr] by auto
  with w show ?thesis by auto
qed

lemma weight_of_less:
  assumes "pos state < int (length text)" and "1 \<le> c"
  shows "weight_of text \<lparr>pos = pos state + c, key = k\<rparr> < weight_of text state"
  using assms by (simp add: weight_of_def)

lemma weights_fold_push:
  assumes "pos state < int (length text)" and "1 \<le> c"
  shows "\<exists>K. (\<forall>k\<in>#K. k < weight_of text state)
           \<and> weights text (snd (fold (push_output cfg state c) outs ef))
               \<subseteq># weights text (snd ef) + K"
proof (induction outs arbitrary: ef)
  case Nil
  have "(\<forall>k\<in>#{#}. k < weight_of text state)
      \<and> weights text (snd (fold (push_output cfg state c) [] ef)) \<subseteq># weights text (snd ef) + {#}"
    by simp
  then show ?case by blast
next
  case (Cons a outs)
  obtain k where k: "weights text (snd (push_output cfg state c a ef))
      \<subseteq># add_mset (weight_of text \<lparr>pos = pos state + c, key = k\<rparr>) (weights text (snd ef))"
    using weights_push_output by blast
  obtain K where K: "\<forall>k\<in>#K. k < weight_of text state"
    "weights text (snd (fold (push_output cfg state c) outs (push_output cfg state c a ef)))
       \<subseteq># weights text (snd (push_output cfg state c a ef)) + K"
    using Cons.IH by blast
  let ?w = "weight_of text \<lparr>pos = pos state + c, key = k\<rparr>"
  have "weights text (snd (push_output cfg state c a ef)) + K
      \<subseteq># add_mset ?w (weights text (snd ef)) + K"
    using k by (simp add: subset_mset.add_right_mono)
  with K(2) have "weights text (snd (fold (push_output cfg state c) (a # outs) ef))
      \<subseteq># weights text (snd ef) + add_mset ?w K"
    by (simp add: subset_mset.order_trans)
  moreover have "\<forall>k\<in>#add_mset ?w K. k < weight_of text state"
    using K(1) weight_of_less [OF assms] by simp
  ultimately show ?case by blast
qed

lemma weights_apply_rules:
  assumes "pos state < int (length text)" and "\<forall>r\<in>set app. 1 \<le> consumed r"
  shows "\<exists>K. (\<forall>k\<in>#K. k < weight_of text state)
           \<and> weights text (snd (apply_rules cfg state app ef)) \<subseteq># weights text (snd ef) + K"
  using assms(2)
proof (induction app arbitrary: ef)
  case Nil
  have "(\<forall>k\<in>#{#}. k < weight_of text state)
      \<and> weights text (snd (apply_rules cfg state [] ef)) \<subseteq># weights text (snd ef) + {#}"
    by (simp add: apply_rules_def)
  then show ?case by blast
next
  case (Cons r app)
  define ef1 where "ef1 = fold (push_output cfg state (consumed r)) (outputs r) ef"
  have c: "1 \<le> consumed r" using Cons.prems by simp
  obtain K1 where K1: "\<forall>k\<in>#K1. k < weight_of text state"
    "weights text (snd ef1) \<subseteq># weights text (snd ef) + K1"
    using weights_fold_push [OF assms(1) c] unfolding ef1_def by blast
  obtain K2 where K2: "\<forall>k\<in>#K2. k < weight_of text state"
    "weights text (snd (apply_rules cfg state app ef1)) \<subseteq># weights text (snd ef1) + K2"
    using Cons.IH [of ef1] Cons.prems by auto
  have "weights text (snd ef1) + K2 \<subseteq># weights text (snd ef) + K1 + K2"
    using K1(2) by (simp add: subset_mset.add_right_mono)
  with K2(2) have "weights text (snd (apply_rules cfg state app ef1))
      \<subseteq># weights text (snd ef) + (K1 + K2)"
    by (simp add: subset_mset.order_trans add.assoc)
  moreover have "apply_rules cfg state (r # app) ef = apply_rules cfg state app ef1"
    by (simp add: apply_rules_def ef1_def)
  moreover have "\<forall>k\<in>#K1 + K2. k < weight_of text state"
    using K1(1) K2(1) by auto
  ultimately show ?case by metis
qed

lemma smaller_weights_less:
  assumes "\<forall>k\<in>#K. k < (w::nat)" and "M \<subseteq># I + K"
  shows "M < add_mset w I"
proof -
  have "multp (<) (I + K) (I + {#w#})"
    by (rule one_step_implies_multp) (use assms(1) in auto)
  then have "I + K < add_mset w I" by (simp add: less_multiset_def)
  moreover have "M \<le> I + K" using assms(2) by (rule subset_eq_imp_le_multiset)
  ultimately show ?thesis by (rule le_less_trans [rotated])
qed

lemma select_subset: "set (selectApplicableRules text p rs) \<subseteq> set rs"
  by (auto simp: selectApplicableRules_def Let_def)

lemma step_decreases:
  assumes rs: "\<forall>r\<in>set rs. 1 \<le> consumed r"
    and st: "step text rs cfg ls state rest = Some ls'"
  shows "weights text (frontier ls') < weights text (state # rest)"
proof (cases "pos state \<ge> int (length text)")
  case True
  then have "frontier ls' = rest"
    using st by (auto simp: step_def split: option.splits)
  then show ?thesis
    using smaller_weights_less [of "{#}" "weight_of text state" "weights text rest" "weights text rest"]
    by (simp add: weights_def)
next
  case False
  then have lt: "pos state < int (length text)" by simp
  show ?thesis
  proof (cases "char_at text (pos state) = Some 0x20")
    case True
    then have fr: "frontier ls' = rest @ [\<lparr>pos = pos state + 1, key = key state\<rparr>]"
      using st False by (auto simp: step_def Let_def)
    have "weight_of text \<lparr>pos = pos state + 1, key = key state\<rparr> < weight_of text state"
      using weight_of_less [OF lt, of 1] by simp
    then show ?thesis
      using smaller_weights_less [of "{#weight_of text \<lparr>pos = pos state + 1, key = key state\<rparr>#}"
          "weight_of text state" "weights text (frontier ls')" "weights text rest"]
      by (simp add: fr weights_def)
  next
    case nsp: False
    show ?thesis
    proof (cases "selectApplicableRules text (pos state) rs = []")
      case True
      define k where "k = key state @ fallbackMapChar (char_at text (pos state)) (ruleType cfg)"
      have fr: "frontier ls' = rest @ [\<lparr>pos = pos state + 1, key = k\<rparr>]"
        using st False nsp True by (auto simp: step_def Let_def k_def)
      have "weight_of text \<lparr>pos = pos state + 1, key = k\<rparr> < weight_of text state"
        using weight_of_less [OF lt, of 1] by simp
      then show ?thesis
        using smaller_weights_less [of "{#weight_of text \<lparr>pos = pos state + 1, key = k\<rparr>#}"
            "weight_of text state" "weights text (frontier ls')" "weights text rest"]
        by (simp add: fr weights_def)
    next
      case app: False
      define app where "app = selectApplicableRules text (pos state) rs"
      have fr: "frontier ls' = snd (apply_rules cfg state app (expansions ls, rest))"
        using st False nsp app by (auto simp: step_def Let_def app_def)
      have "\<forall>r\<in>set app. 1 \<le> consumed r"
        using rs select_subset [of "text" "pos state" rs] by (auto simp: app_def)
      then obtain K where K: "\<forall>k\<in>#K. k < weight_of text state"
        "weights text (frontier ls') \<subseteq># weights text rest + K"
        using weights_apply_rules [OF lt, of app cfg "(expansions ls, rest)"] fr by auto
      then show ?thesis
        using smaller_weights_less [of K "weight_of text state" "weights text (frontier ls')"
            "weights text rest"]
        by (simp add: weights_def)
    qed
  qed
qed

section \<open>The loops return\<close>

lemma merge_loop_returns:
  assumes "\<forall>e\<in>set symbols. fst e \<noteq> []"
  shows "\<exists>r. merge_loop symbols k i out = Some r"
proof (induction "length k - i" arbitrary: i out rule: less_induct)
  case less
  show ?case
  proof (cases "i < length k")
    case False
    then show ?thesis by (subst merge_loop.simps) simp
  next
    case True
    show ?thesis
    proof (cases "find (\<lambda>e. startsWith k (fst e) (int i)) symbols")
      case None
      have "length k - (i + 1) < length k - i" using True by simp
      from less [OF this] obtain r where "merge_loop symbols k (i + 1) (out @ [k ! i]) = Some r"
        by blast
      then show ?thesis using True None by (subst merge_loop.simps) simp
    next
      case (Some e)
      then have "e \<in> set symbols" by (auto simp: find_Some_iff)
      then have "fst e \<noteq> []" using assms by auto
      then have "1 \<le> length (fst e)" by (cases "fst e") auto
      then have "length k - (i + length (fst e)) < length k - i" using True by linarith
      from less [OF this] obtain r
        where "merge_loop symbols k (i + length (fst e)) (out @ snd e) = Some r"
        by blast
      then show ?thesis using True Some by (subst merge_loop.simps) simp
    qed
  qed
qed


lemma finalizeKey_returns:
  assumes "merger_ok cfg"
  shows "\<exists>f. finalizeKey k cfg = Some f"
proof (cases "ruleType cfg = APPROX")
  case False
  then show ?thesis by (simp add: finalizeKey_def)
next
  case True
  show ?thesis
  proof (cases "mergerTable cfg")
    case None
    then show ?thesis using True by (simp add: finalizeKey_def applyMergerTable_def)
  next
    case (Some m)
    then have "\<forall>e\<in>set m. fst e \<noteq> []" using assms True by (simp add: merger_ok_def)
    then have "\<forall>e\<in>set (js_sort (\<lambda>a b. int (length (fst b)) - int (length (fst a))) m). fst e \<noteq> []"
      by (simp add: set_js_sort)
    from merge_loop_returns [OF this]
    show ?thesis using True Some by (simp add: finalizeKey_def applyMergerTable_def)
  qed
qed

lemma step_returns:
  assumes "merger_ok cfg"
  shows "\<exists>ls'. step text rs cfg ls state rest = Some ls'"
  using finalizeKey_returns [OF assms, of "key state"]
  by (auto simp: step_def Let_def)

lemma encode_loop_returns:
  assumes rs: "\<forall>r\<in>set rs. 1 \<le> consumed r" and m: "merger_ok cfg"
  shows "\<exists>ks. encode_loop text rs cfg ls = Some ks"
proof (induction "weights text (frontier ls)" arbitrary: ls rule: less_induct)
  case less
  show ?case
  proof (cases "frontier ls")
    case Nil
    then show ?thesis by (subst encode_loop.simps) simp
  next
    case (Cons state rest)
    obtain ls' where st: "step text rs cfg ls state rest = Some ls'"
      using step_returns [OF m] by blast
    have "weights text (frontier ls') < weights text (frontier ls)"
      using step_decreases [OF rs st] Cons by simp
    from less [OF this] obtain ks where "encode_loop text rs cfg ls' = Some ks" by blast
    then show ?thesis using Cons st by (subst encode_loop.simps) simp
  qed
qed

section \<open>The frontier stays bounded; loops that never end\<close>

lemma length_pruneFrontier: "length (pruneFrontier fr) \<le> 1024"
  by (simp add: pruneFrontier_def)

lemma counted_push_output:
  assumes "counted cfg ef"
  shows "counted cfg (push_output cfg state c outSym ef)"
  using assms length_pruneFrontier
  by (auto simp: counted_def push_output_def Let_def)

lemma counted_fold_push:
  "counted cfg ef \<Longrightarrow> counted cfg (fold (push_output cfg state c) outs ef)"
  by (induction outs arbitrary: ef) (simp_all add: counted_push_output)

lemma counted_apply_rules:
  "counted cfg ef \<Longrightarrow> counted cfg (apply_rules cfg state app ef)"
  unfolding apply_rules_def
  by (induction app arbitrary: ef) (simp_all add: counted_fold_push)

lemma counted_head_step:
  assumes inv: "counted_head cfg ls" and fr: "frontier ls = state # rest"
    and st: "step text rs cfg ls state rest = Some ls'"
  shows "counted_head cfg ls'"
proof (cases "pos state < int (length text) \<and> char_at text (pos state) \<noteq> Some 0x20
    \<and> selectApplicableRules text (pos state) rs \<noteq> []")
  case True
  define ef where
    "ef = apply_rules cfg state (selectApplicableRules text (pos state) rs) (expansions ls, rest)"
  have "counted cfg (expansions ls, rest)"
    using inv fr by (auto simp: counted_def counted_head_def)
  then have "counted cfg ef" unfolding ef_def by (rule counted_apply_rules)
  moreover have "expansions ls' = fst ef" "frontier ls' = snd ef"
    using st True by (auto simp: step_def Let_def ef_def)
  ultimately show ?thesis by (auto simp: counted_def counted_head_def)
next
  case False
  then have "expansions ls' = expansions ls \<and> length (frontier ls') \<le> length (frontier ls)"
    using st fr by (auto simp: step_def Let_def split: option.splits if_splits)
  then show ?thesis using inv by (auto simp: counted_head_def)
qed

lemma reachable_counted_head: "reachable text rs cfg ls \<Longrightarrow> counted_head cfg ls"
proof (induction rule: reachable.induct)
  case start
  show ?case by (simp add: counted_head_def)
next
  case (pass ls state rest ls')
  then show ?case using counted_head_step by blast
qed

lemma counted_head_bound: "counted_head cfg ls \<Longrightarrow> length (frontier ls) \<le> frontier_bound cfg"
  by (auto simp: counted_head_def frontier_bound_def)

lemma zero_rule_step:
  "step (js ''a'') [zero_rule] demo_exact ls \<lparr>pos = 0, key = []\<rparr> []
     = Some (ls\<lparr>expansions := expansions ls + 1, frontier := [\<lparr>pos = 0, key = []\<rparr>]\<rparr>)"
  by (simp add: step_def char_at_def selectApplicableRules_def rule_matches_def startsWith_def
      consumed_def max_of_def apply_rules_def push_output_def pruneFrontier_def js_sort_def
      js_def zero_rule_def demo_exact_def Let_def)

lemma zero_rule_stuck:
  assumes ret: "encode_loop tx0 rs0 cfg0 ls0 = Some y0"
  shows "\<not> (tx0 = js ''a'' \<and> rs0 = [zero_rule] \<and> cfg0 = demo_exact
        \<and> frontier ls0 = [\<lparr>pos = 0, key = []\<rparr>])"
proof (rule encode_loop.raw_induct
    [where P = "\<lambda>tx rs cfg ls y. \<not> (tx = js ''a'' \<and> rs = [zero_rule] \<and> cfg = demo_exact
        \<and> frontier ls = [\<lparr>pos = 0, key = []\<rparr>])", OF _ ret])
  fix f tx rs cfg ls and y :: "jsstring list"
  assume IH: "\<And>tx rs cfg ls y. f tx rs cfg ls = Some y \<Longrightarrow>
      \<not> (tx = js ''a'' \<and> rs = [zero_rule] \<and> cfg = demo_exact
        \<and> frontier ls = [\<lparr>pos = 0, key = []\<rparr>])"
    and body: "(case frontier ls of [] \<Rightarrow> Some (results ls)
        | state # rest \<Rightarrow> Option.bind (step tx rs cfg ls state rest) (f tx rs cfg)) = Some y"
  show "\<not> (tx = js ''a'' \<and> rs = [zero_rule] \<and> cfg = demo_exact
        \<and> frontier ls = [\<lparr>pos = 0, key = []\<rparr>])"
  proof
    assume a: "tx = js ''a'' \<and> rs = [zero_rule] \<and> cfg = demo_exact
        \<and> frontier ls = [\<lparr>pos = 0, key = []\<rparr>]"
    define ls' where "ls' = ls\<lparr>expansions := expansions ls + 1, frontier := [\<lparr>pos = 0, key = []\<rparr>]\<rparr>"
    have "f tx rs cfg ls' = Some y"
      using body a zero_rule_step [of ls] by (simp add: ls'_def)
    then have "\<not> (tx = js ''a'' \<and> rs = [zero_rule] \<and> cfg = demo_exact
        \<and> frontier ls' = [\<lparr>pos = 0, key = []\<rparr>])"
      by (rule IH)
    moreover have "frontier ls' = [\<lparr>pos = 0, key = []\<rparr>]" by (simp add: ls'_def)
    ultimately show False using a by blast
  qed
qed

lemma zero_rule_diverges:
  "encodeWithRules (js ''a'') \<lparr>language = js ''english'', rules = [zero_rule]\<rparr> demo_exact = None"
proof (cases "encodeWithRules (js ''a'') \<lparr>language = js ''english'', rules = [zero_rule]\<rparr> demo_exact")
  case None
  then show ?thesis .
next
  case (Some y)
  then show ?thesis
    using zero_rule_stuck [of "js ''a''" "[zero_rule]" demo_exact
        "\<lparr>results = [], expansions = 0, frontier = [\<lparr>pos = 0, key = []\<rparr>]\<rparr>" y]
    by (simp add: encodeWithRules_def)
qed

lemma empty_symbol_stuck:
  assumes ret: "merge_loop symbols0 k0 i0 out0 = Some y0"
  shows "\<not> (symbols0 = [([], x)] \<and> i0 < length k0)"
proof (rule merge_loop.raw_induct
    [where P = "\<lambda>symbols k i out y. \<not> (symbols = [([], x)] \<and> i < length k)", OF _ ret])
  fix f symbols k i out and y :: jsstring
  assume IH: "\<And>symbols k i out y. f symbols k i out = Some y \<Longrightarrow>
      \<not> (symbols = [([], x)] \<and> i < length k)"
    and body: "(if i < length k then
        (case find (\<lambda>e. startsWith k (fst e) (int i)) symbols of
           None \<Rightarrow> f symbols k (i + 1) (out @ [k ! i])
         | Some e \<Rightarrow> f symbols k (i + length (fst e)) (out @ snd e))
      else Some out) = Some y"
  show "\<not> (symbols = [([], x)] \<and> i < length k)"
  proof
    assume a: "symbols = [([], x)] \<and> i < length k"
    then have "f symbols k i (out @ x) = Some y"
      using body by (simp add: startsWith_def)
    from IH [OF this] a show False by simp
  qed
qed

lemma empty_symbol_finalizeKey:
  "finalizeKey (js ''S'') (approx_of demo_exact [(js '''', js ''X'')]) = None"
proof (cases "finalizeKey (js ''S'') (approx_of demo_exact [(js '''', js ''X'')])")
  case None
  then show ?thesis .
next
  case (Some y)
  then obtain z where "merge_loop [([], js ''X'')] (js ''S'') 0 [] = Some z"
    by (auto simp: finalizeKey_def approx_of_def applyMergerTable_def js_sort_def js_def)
  then show ?thesis using empty_symbol_stuck [of "[([], js ''X'')]" "js ''S''" 0 "[]" z "js ''X''"]
    by (simp add: js_def)
qed

lemma empty_symbol_diverges:
  "encodeWithRules (js ''s'') demo_rules (approx_of demo_exact [(js '''', js ''X'')]) = None"
proof -
  have 1: "step (js ''s'') (rules demo_rules) (approx_of demo_exact [(js '''', js ''X'')])
      \<lparr>results = [], expansions = 0, frontier = [\<lparr>pos = 0, key = []\<rparr>]\<rparr> \<lparr>pos = 0, key = []\<rparr> []
    = Some \<lparr>results = [], expansions = 1, frontier = [\<lparr>pos = 1, key = js ''S''\<rparr>]\<rparr>"
    by (simp add: step_def char_at_def selectApplicableRules_def rule_matches_def startsWith_def
      consumed_def max_of_def apply_rules_def push_output_def pruneFrontier_def js_sort_def
      js_def demo_rules_def plain_rule_def demo_exact_def approx_of_def Let_def)
  have 2: "step (js ''s'') (rules demo_rules) (approx_of demo_exact [(js '''', js ''X'')])
      \<lparr>results = [], expansions = 1, frontier = [\<lparr>pos = 1, key = js ''S''\<rparr>]\<rparr>
      \<lparr>pos = 1, key = js ''S''\<rparr> [] = None"
    using empty_symbol_finalizeKey by (simp add: step_def js_def)
  show ?thesis
    unfolding encodeWithRules_def
    by (subst encode_loop.simps, simp add: 1, subst encode_loop.simps, simp add: 2)
qed

text \<open>
  C1 (as amended): for every input the frontier at the head of a pass of the loop has at
  most \<open>max 1024 (maxExpansions + 1)\<close> elements; and \<open>encodeWithRules\<close> returns when
  every rule of the rule set consumes at least one character and no symbol of a merger
  table in use is empty.
\<close>

theorem encodeWithRules_returns_bounded:
  "(\<forall>ls. reachable tx (rules langRules) cfg ls \<longrightarrow> length (frontier ls) \<le> frontier_bound cfg)
   \<and> ((\<forall>r\<in>set (rules langRules). 1 \<le> consumed r) \<and> merger_ok cfg
        \<longrightarrow> (\<exists>ks. encodeWithRules tx langRules cfg = Some ks))"
proof (intro conjI impI)
  show "\<forall>ls. reachable tx (rules langRules) cfg ls \<longrightarrow> length (frontier ls) \<le> frontier_bound cfg"
    using reachable_counted_head counted_head_bound by blast
next
  assume "(\<forall>r\<in>set (rules langRules). 1 \<le> consumed r) \<and> merger_ok cfg"
  then show "\<exists>ks. encodeWithRules tx langRules cfg = Some ks"
    unfolding encodeWithRules_def using encode_loop_returns by blast
qed

theorem encodeWithRules_returns_bounded_witness:
  "list_all (\<lambda>r. 1 \<le> consumed r) (rules demo_rules) \<and> merger_ok demo_exact
   \<and> (\<exists>ks. encodeWithRules (js ''scct'') demo_rules demo_exact = Some ks)
   \<and> reachable (js ''scct'') (rules demo_rules) demo_exact
         \<lparr>results = [], expansions = 0, frontier = [\<lparr>pos = 0, key = []\<rparr>]\<rparr>
   \<and> length (frontier \<lparr>results = [], expansions = 0, frontier = [\<lparr>pos = 0, key = []\<rparr>]\<rparr>)
         \<le> frontier_bound demo_exact
   \<and> frontier_bound demo_exact = 1024"
proof -
  have h1: "\<forall>r\<in>set (rules demo_rules). 1 \<le> consumed r"
    by (simp add: demo_rules_def plain_rule_def consumed_def)
  have h2: "merger_ok demo_exact"
    by (simp add: merger_ok_def demo_exact_def)
  have b: "frontier_bound demo_exact = 1024"
    by (simp add: frontier_bound_def demo_exact_def)
  have r: "reachable (js ''scct'') (rules demo_rules) demo_exact
      \<lparr>results = [], expansions = 0, frontier = [\<lparr>pos = 0, key = []\<rparr>]\<rparr>"
    by (rule reachable.start)
  have "\<exists>ks. encodeWithRules (js ''scct'') demo_rules demo_exact = Some ks"
    using encodeWithRules_returns_bounded [of "js ''scct''" demo_rules demo_exact] h1 h2 by blast
  moreover have "length (frontier \<lparr>results = [], expansions = 0, frontier = [\<lparr>pos = 0, key = []\<rparr>]\<rparr>)
      \<le> frontier_bound demo_exact"
    using encodeWithRules_returns_bounded [of "js ''scct''" demo_rules demo_exact] r by blast
  ultimately show ?thesis using h1 h2 b r by (simp add: list_all_iff)
qed

text \<open>
  C1 as stated fails: with a rule that matches and consumes nothing the loop never ends,
  and with an empty symbol in the merger table finalization never ends.
\<close>

theorem encodeWithRules_never_returns:
  "encodeWithRules (js ''a'') \<lparr>language = js ''english'', rules = [zero_rule]\<rparr> demo_exact = None
   \<and> encodeWithRules (js ''s'') demo_rules (approx_of demo_exact [(js '''', js ''X'')]) = None"
  using zero_rule_diverges empty_symbol_diverges by simp

section \<open>Matching and similarity\<close>

lemma encodeWithRules_returns:
  assumes "\<forall>r\<in>set (rules lr). 1 \<le> consumed r" and "merger_ok cfg"
  shows "\<exists>ks. encodeWithRules tx lr cfg = Some ks"
  unfolding encodeWithRules_def using assms by (rule encode_loop_returns)

lemma encode_found_returns:
  assumes "rules_consume cfg" and "merger_ok cfg" and "lookup_rules cfg l = Some found"
    and "found \<noteq> Inherited"
  shows "\<exists>ks. encode_found tx found cfg = Some ks"
proof (cases found)
  case (Registered lr)
  then have "languageRuleSets cfg l = Some lr"
    using assms(3) by (auto simp: lookup_rules_def split: option.splits if_splits)
  then have "\<forall>r\<in>set (rules lr). 1 \<le> consumed r"
    using assms(1) unfolding rules_consume_def by blast
  then show ?thesis using Registered encodeWithRules_returns [OF _ assms(2)] by simp
next
  case Inherited
  then show ?thesis using assms(4) by simp
qed

lemma encode_langs_returns:
  assumes rc: "rules_consume cfg" and m: "merger_ok cfg"
  shows "\<forall>l\<in>set langs. lookup_rules cfg (fst l) \<noteq> Some Inherited
    \<Longrightarrow> \<exists>res. encode_langs U cfg raw langs out = Some res"
proof (induction langs arbitrary: out)
  case Nil
  show ?case by simp
next
  case (Cons l langs)
  show ?case
  proof (cases "lookup_rules cfg (fst l)")
    case None
    then show ?thesis using Cons by simp
  next
    case (Some found)
    then have "found \<noteq> Inherited" using Cons.prems by auto
    then obtain ks where
      "encode_found (preprocess U (transliterateForLanguage raw (fst l) cfg)) found cfg = Some ks"
      using encode_found_returns [OF rc m Some] by blast
    then show ?thesis using Some Cons by (simp add: Let_def)
  qed
qed

lemma bmpmEncode_returns:
  assumes "rules_consume cfg" and "merger_ok cfg" and "lookups_defined cfg"
  shows "\<exists>res. bmpmEncode U raw cfg = Some res"
proof (cases "trim raw = []")
  case True
  then show ?thesis by (simp add: bmpmEncode_def)
next
  case False
  have "\<forall>l\<in>set (detectLanguages (toLowerCase U (normalizeNFC U raw)) cfg).
      lookup_rules cfg (fst l) \<noteq> Some Inherited"
    using assms(3) unfolding lookups_defined_def by blast
  from encode_langs_returns [OF assms(1,2) this]
  show ?thesis using False by (simp add: bmpmEncode_def Let_def)
qed

lemma encode_langs_nonempty_keys:
  "encode_langs U cfg raw langs out = Some res \<Longrightarrow> \<forall>r\<in>set out. keys r \<noteq> []
     \<Longrightarrow> \<forall>r\<in>set res. keys r \<noteq> []"
proof (induction langs arbitrary: out)
  case Nil
  then show ?case by simp
next
  case (Cons l langs)
  show ?case
  proof (cases "lookup_rules cfg (fst l)")
    case None
    then show ?thesis using Cons by simp
  next
    case (Some lr)
    define norm where "norm = preprocess U (transliterateForLanguage raw (fst l) cfg)"
    show ?thesis
    proof (cases "norm = []")
      case True
      then show ?thesis using Some Cons by (simp add: Let_def norm_def)
    next
      case False
      then obtain ks where ks: "encode_found norm lr cfg = Some ks"
        using Cons.prems(1) Some by (auto simp: Let_def norm_def split: option.splits)
      then have "encode_langs U cfg raw langs
          (if ks \<noteq> [] then out @ [\<lparr>r_language = fst l, keys = ks\<rparr>] else out) = Some res"
        using Cons.prems(1) Some False by (simp add: Let_def norm_def)
      moreover have "\<forall>r\<in>set (if ks \<noteq> [] then out @ [\<lparr>r_language = fst l, keys = ks\<rparr>] else out).
          keys r \<noteq> []"
        using Cons.prems(2) by auto
      ultimately show ?thesis by (rule Cons.IH)
    qed
  qed
qed

lemma bmpmEncode_nonempty_keys:
  "bmpmEncode U raw cfg = Some res \<Longrightarrow> \<forall>r\<in>set res. keys r \<noteq> []"
  using encode_langs_nonempty_keys [of U cfg _ _ "[]" res]
  by (auto simp: bmpmEncode_def Let_def split: if_splits)

lemma all_keys_nonempty:
  assumes "bmpmEncode U raw cfg = Some res" and "res \<noteq> []"
  shows "all_keys res \<noteq> []"
proof -
  obtain r where r: "r \<in> set res" using assms(2) by (cases res) auto
  then have "keys r \<noteq> []" using bmpmEncode_nonempty_keys [OF assms(1)] by blast
  then obtain k where "k \<in> set (keys r)" by (cases "keys r") auto
  then have "k \<in> set (all_keys res)" using r by (auto simp: set_all_keys)
  then show ?thesis by auto
qed

text \<open>
  C3: \<open>bmpmMatch\<close> returns true exactly when both encodings return and the unions of their
  keys share a key, which is exactly when \<open>bmpmSimilarity\<close> returns a positive number; it
  returns false exactly when \<open>bmpmSimilarity\<close> returns 0; and it returns whenever the rules
  consume characters and no merger symbol is empty.
\<close>

theorem bmpmMatch_iff_shared_key:
  "(bmpmMatch U a b cfg = Some True \<longleftrightarrow>
      (\<exists>A B. bmpmEncode U a cfg = Some A \<and> bmpmEncode U b cfg = Some B
         \<and> (\<Union>r\<in>set A. set (keys r)) \<inter> (\<Union>r\<in>set B. set (keys r)) \<noteq> {}))
   \<and> (bmpmMatch U a b cfg = Some True \<longleftrightarrow> (\<exists>s. bmpmSimilarity U a b cfg = Some s \<and> 0 < s))
   \<and> (bmpmMatch U a b cfg = Some False \<longleftrightarrow> bmpmSimilarity U a b cfg = Some 0)
   \<and> (rules_consume cfg \<and> merger_ok cfg \<and> lookups_defined cfg
        \<longrightarrow> (\<exists>m. bmpmMatch U a b cfg = Some m))"
proof (intro conjI impI)
  show "bmpmMatch U a b cfg = Some True \<longleftrightarrow>
      (\<exists>A B. bmpmEncode U a cfg = Some A \<and> bmpmEncode U b cfg = Some B
         \<and> (\<Union>r\<in>set A. set (keys r)) \<inter> (\<Union>r\<in>set B. set (keys r)) \<noteq> {})"
    by (auto simp: bmpmMatch_def Let_def list_ex_mem set_all_keys split: option.splits)
  show "bmpmMatch U a b cfg = Some True \<longleftrightarrow> (\<exists>s. bmpmSimilarity U a b cfg = Some s \<and> 0 < s)"
    by (auto simp: bmpmMatch_def bmpmSimilarity_def Let_def list_ex_mem
        jaccard_pos [OF distinct_all_keys] split: option.splits)
  show "bmpmMatch U a b cfg = Some False \<longleftrightarrow> bmpmSimilarity U a b cfg = Some 0"
  proof -
    have "jaccard (all_keys A) (all_keys B) = 0
        \<longleftrightarrow> set (all_keys A) \<inter> set (all_keys B) = {}" for A B
      using jaccard_pos [OF distinct_all_keys, of A "all_keys B"]
        jaccard_range [OF distinct_all_keys, of A "all_keys B"] by auto
    then show ?thesis
      by (auto simp: bmpmMatch_def bmpmSimilarity_def Let_def list_ex_mem split: option.splits)
  qed
next
  assume "rules_consume cfg \<and> merger_ok cfg \<and> lookups_defined cfg"
  then obtain A B where "bmpmEncode U a cfg = Some A" "bmpmEncode U b cfg = Some B"
    using bmpmEncode_returns by blast
  then show "\<exists>m. bmpmMatch U a b cfg = Some m" by (simp add: bmpmMatch_def)
qed

lemma default_names_not_inherited:
  "\<not> inherited_name (js ''english'') \<and> \<not> inherited_name (js ''german'')
   \<and> \<not> inherited_name (js ''french'')"
  by (simp add: inherited_name_def js_def)

lemma demo_exact_lookups: "lookups_defined demo_exact"
  using default_names_not_inherited
  by (simp add: lookups_defined_def detectLanguages_def defaults_def demo_exact_def js_sort_def
      lookup_rules_def Let_def)

lemma demo_exact_ok:
  "rules_consume demo_exact \<and> merger_ok demo_exact \<and> lookups_defined demo_exact"
  using demo_exact_lookups
  by (auto simp: rules_consume_def merger_ok_def demo_exact_def demo_rules_def plain_rule_def consumed_def
      split: if_splits)

lemma demo_exact_Sct:
  "bmpmEncode ascii_unicode (js ''Sct'') demo_exact
     = Some [\<lparr>r_language = js ''english'', keys = [js ''SKT'']\<rparr>]"
  by code_simp

lemma demo_exact_scct:
  "bmpmEncode ascii_unicode (js ''scct'') demo_exact
     = Some [\<lparr>r_language = js ''english'', keys = [js ''SKKT'', js ''SKST'']\<rparr>]"
  by code_simp

lemma demo_exact_SC:
  "bmpmEncode ascii_unicode (js ''SC'') demo_exact
     = Some [\<lparr>r_language = js ''english'', keys = [js ''SK'']\<rparr>]"
  by code_simp

lemma demo_exact_s_c:
  "bmpmEncode ascii_unicode (js ''s-c'') demo_exact
     = Some [\<lparr>r_language = js ''english'', keys = [js ''SK'', js ''SS'']\<rparr>]"
  by code_simp

theorem bmpmMatch_iff_shared_key_witness:
  "rules_consume demo_exact \<and> merger_ok demo_exact \<and> lookups_defined demo_exact
   \<and> bmpmMatch ascii_unicode (js ''Sct'') (js ''scct'') demo_exact = Some False
   \<and> bmpmSimilarity ascii_unicode (js ''Sct'') (js ''scct'') demo_exact = Some 0
   \<and> bmpmMatch ascii_unicode (js ''SC'') (js ''s-c'') demo_exact = Some True
   \<and> (\<exists>s. bmpmSimilarity ascii_unicode (js ''SC'') (js ''s-c'') demo_exact = Some s \<and> 0 < s)"
proof -
  have f: "bmpmMatch ascii_unicode (js ''Sct'') (js ''scct'') demo_exact = Some False"
    unfolding bmpmMatch_def demo_exact_Sct demo_exact_scct
    by (simp add: all_keys_def new_Set_def set_add_def js_def)
  have t: "bmpmMatch ascii_unicode (js ''SC'') (js ''s-c'') demo_exact = Some True"
    unfolding bmpmMatch_def demo_exact_SC demo_exact_s_c
    by (simp add: all_keys_def new_Set_def set_add_def js_def)
  show ?thesis
    using bmpmMatch_iff_shared_key [of ascii_unicode "js ''Sct''" "js ''scct''" demo_exact]
      bmpmMatch_iff_shared_key [of ascii_unicode "js ''SC''" "js ''s-c''" demo_exact]
      f t demo_exact_ok
    by simp
qed

text \<open>
  C4: every value \<open>bmpmSimilarity\<close> returns lies between 0 and 1; it returns whenever the
  rules consume characters and no merger symbol is empty; and the similarity of a name
  with itself is 1 when the encoding of the name is not empty.
\<close>

theorem bmpmSimilarity_range:
  "(\<forall>s. bmpmSimilarity U a b cfg = Some s \<longrightarrow> 0 \<le> s \<and> s \<le> 1)
   \<and> (rules_consume cfg \<and> merger_ok cfg \<and> lookups_defined cfg
        \<longrightarrow> (\<exists>s. bmpmSimilarity U a b cfg = Some s))
   \<and> (\<forall>A. bmpmEncode U a cfg = Some A \<and> A \<noteq> [] \<longrightarrow> bmpmSimilarity U a a cfg = Some 1)"
proof (intro conjI allI impI)
  fix s assume "bmpmSimilarity U a b cfg = Some s"
  then obtain A B where "s = jaccard (all_keys A) (all_keys B)"
    by (auto simp: bmpmSimilarity_def split: option.splits)
  then show "0 \<le> s" "s \<le> 1"
    using jaccard_range [OF distinct_all_keys, of A "all_keys B"] by simp_all
next
  assume "rules_consume cfg \<and> merger_ok cfg \<and> lookups_defined cfg"
  then obtain A B where "bmpmEncode U a cfg = Some A" "bmpmEncode U b cfg = Some B"
    using bmpmEncode_returns by blast
  then show "\<exists>s. bmpmSimilarity U a b cfg = Some s" by (simp add: bmpmSimilarity_def)
next
  fix A assume A: "bmpmEncode U a cfg = Some A \<and> A \<noteq> []"
  then have "all_keys A \<noteq> []" using all_keys_nonempty by blast
  then have "jaccard (all_keys A) (all_keys A) = 1"
    using jaccard_self [OF distinct_all_keys] by blast
  then show "bmpmSimilarity U a a cfg = Some 1"
    using A by (simp add: bmpmSimilarity_def)
qed

theorem bmpmSimilarity_range_witness:
  "bmpmSimilarity ascii_unicode (js ''scct'') (js ''scct'') demo_exact = Some 1
   \<and> bmpmSimilarity ascii_unicode (js ''SC'') (js ''s-c'') demo_exact = Some (1 / 2)
   \<and> (0::rat) \<le> 1 / 2 \<and> (1::rat) / 2 \<le> 1"
proof -
  have h: "bmpmSimilarity ascii_unicode (js ''SC'') (js ''s-c'') demo_exact = Some (1 / 2)"
    unfolding bmpmSimilarity_def demo_exact_SC demo_exact_s_c
    by (simp add: jaccard_def all_keys_def new_Set_def set_add_def js_def)
  show ?thesis
    using bmpmSimilarity_range [of ascii_unicode "js ''SC''" "js ''s-c''" demo_exact]
      bmpmSimilarity_range [of ascii_unicode "js ''scct''" "js ''scct''" demo_exact]
      h demo_exact_scct
    by simp
qed

text \<open>
  C9: \<open>bmpmMatch\<close> and \<open>bmpmSimilarity\<close> give the same result, or both give none, when the
  two names are exchanged.
\<close>

theorem bmpmMatch_bmpmSimilarity_symmetric:
  "bmpmMatch U a b cfg = bmpmMatch U b a cfg
   \<and> bmpmSimilarity U a b cfg = bmpmSimilarity U b a cfg"
  by (auto simp: bmpmMatch_def bmpmSimilarity_def Let_def list_ex_mem Int_commute
      jaccard_sym [OF distinct_all_keys distinct_all_keys] split: option.splits)

theorem bmpmMatch_bmpmSimilarity_symmetric_witness:
  "bmpmMatch ascii_unicode (js ''s-c'') (js ''SC'') demo_exact = Some True
   \<and> bmpmSimilarity ascii_unicode (js ''s-c'') (js ''SC'') demo_exact = Some (1 / 2)"
proof -
  have m: "bmpmMatch ascii_unicode (js ''SC'') (js ''s-c'') demo_exact = Some True"
    unfolding bmpmMatch_def demo_exact_SC demo_exact_s_c
    by (simp add: all_keys_def new_Set_def set_add_def js_def)
  have h: "bmpmSimilarity ascii_unicode (js ''SC'') (js ''s-c'') demo_exact = Some (1 / 2)"
    unfolding bmpmSimilarity_def demo_exact_SC demo_exact_s_c
    by (simp add: jaccard_def all_keys_def new_Set_def set_add_def js_def)
  show ?thesis
    using bmpmMatch_bmpmSimilarity_symmetric [of ascii_unicode "js ''SC''" "js ''s-c''" demo_exact]
      m h
    by simp
qed

section \<open>Rule selection\<close>

lemma max_of_eq:
  assumes "xs \<noteq> []"
  shows "max_of xs = Max (set xs)"
proof (cases xs)
  case Nil
  then show ?thesis using assms by simp
next
  case (Cons a list)
  have "Max (set (a # list)) = fold max list a" by (rule Max.set_eq_fold)
  with Cons show ?thesis by (simp add: max_of_def)
qed

lemma select_filter:
  "selectApplicableRules tx p rs = filter (survives tx p (set rs)) rs"
proof (cases "filter (rule_matches tx p) rs = []")
  case True
  then have "\<forall>r\<in>set rs. \<not> rule_matches tx p r"
    by (simp add: filter_empty_conv)
  then have "filter (survives tx p (set rs)) rs = []"
    by (simp add: filter_empty_conv survives_def)
  with True show ?thesis by (simp add: selectApplicableRules_def)
next
  case False
  define ms where "ms = filter (rule_matches tx p) rs"
  define maxPr where "maxPr = max_of (map priority ms)"
  define top where "top = filter (\<lambda>m. priority m = maxPr) ms"
  define maxLen where "maxLen = max_of (map consumed top)"
  have ms_ne: "ms \<noteq> []" using False by (simp add: ms_def)
  have set_ms: "set ms = {r \<in> set rs. rule_matches tx p r}" by (auto simp: ms_def)
  have maxPr: "maxPr = Max (priority ` set ms)"
    using ms_ne by (simp add: maxPr_def max_of_eq)
  have maxPr_in: "maxPr \<in> priority ` set ms"
    unfolding maxPr using ms_ne by (intro Max_in) auto
  then have top_ne: "top \<noteq> []"
    by (auto simp: top_def filter_empty_conv)
  have set_top: "set top = {r \<in> set ms. priority r = maxPr}" by (auto simp: top_def)
  have maxLen: "maxLen = Max (consumed ` set top)"
    using top_ne by (simp add: maxLen_def max_of_eq)
  have maxLen_in: "maxLen \<in> consumed ` set top"
    unfolding maxLen using top_ne by (intro Max_in) auto
  have pr_le: "priority m \<le> maxPr" if "m \<in> set ms" for m
    unfolding maxPr using that by (intro Max_ge) auto
  have len_le: "consumed m \<le> maxLen" if "m \<in> set top" for m
    unfolding maxLen using that by (intro Max_ge) auto
  have sel: "selectApplicableRules tx p rs
      = filter (\<lambda>r. rule_matches tx p r \<and> priority r = maxPr \<and> consumed r = maxLen) rs"
    using False
    by (simp add: selectApplicableRules_def Let_def ms_def [symmetric] maxPr_def [symmetric]
        top_def [symmetric] maxLen_def [symmetric])
      (simp add: top_def ms_def conj_commute conj_left_commute)
  have "(rule_matches tx p r \<and> priority r = maxPr \<and> consumed r = maxLen)
          = survives tx p (set rs) r" if r: "r \<in> set rs" for r
  proof
    assume a: "rule_matches tx p r \<and> priority r = maxPr \<and> consumed r = maxLen"
    then have rm: "r \<in> set ms" using r by (simp add: set_ms)
    show "survives tx p (set rs) r"
      unfolding survives_def
    proof (intro conjI ballI impI)
      show "rule_matches tx p r" using a by simp
    next
      fix m assume "m \<in> set rs" "rule_matches tx p m"
      then have "m \<in> set ms" by (simp add: set_ms)
      then show "priority m \<le> priority r" using pr_le a by simp
    next
      fix m assume "m \<in> set rs" "rule_matches tx p m \<and> priority m = priority r"
      then have "m \<in> set top" using a by (simp add: set_top set_ms)
      then show "consumed m \<le> consumed r" using len_le a by simp
    qed
  next
    assume s: "survives tx p (set rs) r"
    then have m: "rule_matches tx p r" by (simp add: survives_def)
    then have rm: "r \<in> set ms" using r by (simp add: set_ms)
    obtain t where t: "t \<in> set ms" "priority t = maxPr"
      using maxPr_in by auto
    from t have "t \<in> set rs" "rule_matches tx p t" by (simp_all add: set_ms)
    with s have "priority t \<le> priority r"
      unfolding survives_def by blast
    then have pr: "priority r = maxPr" using t pr_le [OF rm] by simp
    then have rt: "r \<in> set top" using rm by (simp add: set_top)
    obtain u where u: "u \<in> set top" "consumed u = maxLen"
      using maxLen_in by auto
    from u pr have "u \<in> set rs" "rule_matches tx p u \<and> priority u = priority r"
      by (simp_all add: set_top set_ms)
    with s have "consumed u \<le> consumed r"
      unfolding survives_def by blast
    then have "consumed r = maxLen" using u len_le [OF rt] by simp
    with m pr show "rule_matches tx p r \<and> priority r = maxPr \<and> consumed r = maxLen"
      by simp
  qed
  then have "filter (\<lambda>r. rule_matches tx p r \<and> priority r = maxPr \<and> consumed r = maxLen) rs
      = filter (survives tx p (set rs)) rs"
    by (intro filter_cong) auto
  with sel show ?thesis by simp
qed

text \<open>
  C5: \<open>selectApplicableRules\<close> keeps, in the order of the rule set, exactly the rules that
  match at the cursor, have the highest priority among the matching rules and, among
  those, consume the most; which rules survive does not depend on the order of the rule
  set.
\<close>

theorem selectApplicableRules_survivors:
  "selectApplicableRules tx p rs
     = filter (\<lambda>r. rule_matches tx p r
         \<and> (\<forall>m\<in>set rs. rule_matches tx p m \<longrightarrow> priority m \<le> priority r)
         \<and> (\<forall>m\<in>set rs. rule_matches tx p m \<and> priority m = priority r
               \<longrightarrow> consumed m \<le> consumed r)) rs
   \<and> (set rs = set rs' \<longrightarrow>
        set (selectApplicableRules tx p rs) = set (selectApplicableRules tx p rs'))"
proof
  show "selectApplicableRules tx p rs
     = filter (\<lambda>r. rule_matches tx p r
         \<and> (\<forall>m\<in>set rs. rule_matches tx p m \<longrightarrow> priority m \<le> priority r)
         \<and> (\<forall>m\<in>set rs. rule_matches tx p m \<and> priority m = priority r
               \<longrightarrow> consumed m \<le> consumed r)) rs"
    using select_filter [of tx p rs] by (simp add: survives_def [abs_def])
  show "set rs = set rs' \<longrightarrow>
        set (selectApplicableRules tx p rs) = set (selectApplicableRules tx p rs')"
    by (simp add: select_filter)
qed

theorem selectApplicableRules_survivors_witness:
  "selectApplicableRules (js ''schmidt'') 0 [plain_rule ''s'' [''S''] 1, plain_rule ''sch'' [''X''] 10, plain_rule ''sc'' [''SK''] 10]
     = [plain_rule ''sch'' [''X''] 10]
   \<and> set (selectApplicableRules (js ''schmidt'') 0
            [plain_rule ''sc'' [''SK''] 10, plain_rule ''s'' [''S''] 1, plain_rule ''sch'' [''X''] 10])
       = {plain_rule ''sch'' [''X''] 10}"
proof -
  have e: "selectApplicableRules (js ''schmidt'') 0
      [plain_rule ''s'' [''S''] 1, plain_rule ''sch'' [''X''] 10, plain_rule ''sc'' [''SK''] 10] = [plain_rule ''sch'' [''X''] 10]"
    by (simp add: selectApplicableRules_def rule_matches_def startsWith_def consumed_def
        max_of_def plain_rule_def js_def Let_def)
  have s: "set [plain_rule ''s'' [''S''] 1, plain_rule ''sch'' [''X''] 10, plain_rule ''sc'' [''SK''] 10]
      = set [plain_rule ''sc'' [''SK''] 10, plain_rule ''s'' [''S''] 1, plain_rule ''sch'' [''X''] 10]"
    by auto
  have "set (selectApplicableRules (js ''schmidt'') 0
          [plain_rule ''s'' [''S''] 1, plain_rule ''sch'' [''X''] 10, plain_rule ''sc'' [''SK''] 10])
      = set (selectApplicableRules (js ''schmidt'') 0
          [plain_rule ''sc'' [''SK''] 10, plain_rule ''s'' [''S''] 1, plain_rule ''sch'' [''X''] 10])"
    using selectApplicableRules_survivors [of "js ''schmidt''" 0
        "[plain_rule ''s'' [''S''] 1, plain_rule ''sch'' [''X''] 10, plain_rule ''sc'' [''SK''] 10]"
        "[plain_rule ''sc'' [''SK''] 10, plain_rule ''s'' [''S''] 1, plain_rule ''sch'' [''X''] 10]"] s
    by blast
  then show ?thesis unfolding e by simp
qed

section \<open>Key length\<close>

lemma step_long_enough:
  assumes "step tx rs cfg ls state rest = Some ls'" and "long_enough cfg (results ls)"
  shows "long_enough cfg (results ls')"
  using assms
  by (auto simp: step_def Let_def long_enough_def set_add_def split: option.splits if_splits)

lemma encode_loop_long_enough:
  assumes ret: "encode_loop tx0 rs0 cfg0 ls0 = Some ks0"
  shows "long_enough cfg0 (results ls0) \<longrightarrow> long_enough cfg0 ks0"
proof (rule encode_loop.raw_induct
    [where P = "\<lambda>tx rs cfg ls ks. long_enough cfg (results ls) \<longrightarrow> long_enough cfg ks", OF _ ret])
  fix f tx rs cfg ls and ks :: "jsstring list"
  assume IH: "\<And>tx rs cfg ls ks. f tx rs cfg ls = Some ks \<Longrightarrow>
      long_enough cfg (results ls) \<longrightarrow> long_enough cfg ks"
    and body: "(case frontier ls of [] \<Rightarrow> Some (results ls)
        | state # rest \<Rightarrow> Option.bind (step tx rs cfg ls state rest) (f tx rs cfg)) = Some ks"
  show "long_enough cfg (results ls) \<longrightarrow> long_enough cfg ks"
  proof
    assume inv: "long_enough cfg (results ls)"
    show "long_enough cfg ks"
    proof (cases "frontier ls")
      case Nil
      then show ?thesis using body inv by simp
    next
      case (Cons state rest)
      then obtain ls' where st: "step tx rs cfg ls state rest = Some ls'"
        and f: "f tx rs cfg ls' = Some ks"
        using body by (auto simp: bind_eq_Some_conv)
      have "long_enough cfg (results ls')" using st inv by (rule step_long_enough)
      with IH [OF f] show ?thesis by simp
    qed
  qed
qed

lemma encodeWithRules_long_enough:
  "encodeWithRules tx lr cfg = Some ks \<Longrightarrow> long_enough cfg ks"
  using encode_loop_long_enough
    [of tx "rules lr" cfg "\<lparr>results = [], expansions = 0, frontier = [\<lparr>pos = 0, key = []\<rparr>]\<rparr>" ks]
  by (simp add: encodeWithRules_def long_enough_def)

lemma encode_found_long_enough:
  "encode_found tx found cfg = Some ks \<Longrightarrow> long_enough cfg ks"
proof (cases found)
  case (Registered lr)
  then show "encode_found tx found cfg = Some ks \<Longrightarrow> long_enough cfg ks"
    using encodeWithRules_long_enough by simp
next
  case Inherited
  then show "encode_found tx found cfg = Some ks \<Longrightarrow> long_enough cfg ks"
    by (auto simp: encodeWithRules_undefined_def long_enough_def split: if_splits option.splits)
qed

lemma encode_langs_long_enough:
  "encode_langs U cfg raw langs out = Some res \<Longrightarrow> \<forall>r\<in>set out. long_enough cfg (keys r)
     \<Longrightarrow> \<forall>r\<in>set res. long_enough cfg (keys r)"
proof (induction langs arbitrary: out)
  case Nil
  then show ?case by simp
next
  case (Cons l langs)
  show ?case
  proof (cases "lookup_rules cfg (fst l)")
    case None
    then show ?thesis using Cons by simp
  next
    case (Some lr)
    define norm where "norm = preprocess U (transliterateForLanguage raw (fst l) cfg)"
    show ?thesis
    proof (cases "norm = []")
      case True
      then show ?thesis using Some Cons by (simp add: Let_def norm_def)
    next
      case False
      then obtain ks where ks: "encode_found norm lr cfg = Some ks"
        using Cons.prems(1) Some by (auto simp: Let_def norm_def split: option.splits)
      then have "encode_langs U cfg raw langs
          (if ks \<noteq> [] then out @ [\<lparr>r_language = fst l, keys = ks\<rparr>] else out) = Some res"
        using Cons.prems(1) Some False by (simp add: Let_def norm_def)
      moreover have "\<forall>r\<in>set (if ks \<noteq> [] then out @ [\<lparr>r_language = fst l, keys = ks\<rparr>] else out).
          long_enough cfg (keys r)"
        using Cons.prems(2) encode_found_long_enough [OF ks] by auto
      ultimately show ?thesis by (rule Cons.IH)
    qed
  qed
qed

lemma bmpmEncode_long_enough:
  "bmpmEncode U raw cfg = Some res \<Longrightarrow> \<forall>r\<in>set res. long_enough cfg (keys r)"
  using encode_langs_long_enough [of U cfg _ _ "[]" res]
  by (auto simp: bmpmEncode_def Let_def split: if_splits)

lemma demo_approx_lookups: "lookups_defined demo_approx"
  using default_names_not_inherited
  by (simp add: lookups_defined_def detectLanguages_def defaults_def demo_approx_def
      demo_exact_def js_sort_def lookup_rules_def Let_def)

lemma demo_approx_ok:
  "rules_consume demo_approx \<and> merger_ok demo_approx \<and> lookups_defined demo_approx"
  using demo_approx_lookups
  by (auto simp: rules_consume_def merger_ok_def demo_approx_def demo_exact_def demo_rules_def
      plain_rule_def consumed_def js_def split: if_splits)

lemma demo_approx_scct:
  "bmpmEncode ascii_unicode (js ''scct'') demo_approx
     = Some [\<lparr>r_language = js ''english'', keys = [js ''XT'', js ''XST'']\<rparr>]"
  by code_simp

lemma demo_approx_rules_scct:
  "encodeWithRules (js ''scct'') demo_rules demo_approx = Some [js ''XT'', js ''XST'']"
  by code_simp

text \<open>
  C7: every key of every result that \<open>bmpmEncode\<close> returns, and every key that
  \<open>encodeWithRules\<close> returns, has at least \<open>minKeyLength\<close> characters; \<open>bmpmEncode\<close> returns
  whenever the rules consume characters and no merger symbol is empty.
\<close>

theorem keys_at_least_minKeyLength:
  "(\<forall>res. bmpmEncode U raw cfg = Some res \<longrightarrow>
       (\<forall>r\<in>set res. \<forall>k\<in>set (keys r). minKeyLength cfg \<le> int (length k)))
   \<and> (\<forall>ks. encodeWithRules tx lr cfg = Some ks \<longrightarrow>
         (\<forall>k\<in>set ks. minKeyLength cfg \<le> int (length k)))
   \<and> (rules_consume cfg \<and> merger_ok cfg \<and> lookups_defined cfg
        \<longrightarrow> (\<exists>res. bmpmEncode U raw cfg = Some res))"
  using bmpmEncode_long_enough [of U raw cfg] encodeWithRules_long_enough [of tx lr cfg]
    bmpmEncode_returns [of cfg U raw]
  unfolding long_enough_def by blast

theorem keys_at_least_minKeyLength_witness:
  "bmpmEncode ascii_unicode (js ''scct'') demo_approx
     = Some [\<lparr>r_language = js ''english'', keys = [js ''XT'', js ''XST'']\<rparr>]
   \<and> encodeWithRules (js ''scct'') demo_rules demo_approx = Some [js ''XT'', js ''XST'']
   \<and> minKeyLength demo_approx = 2
   \<and> minKeyLength demo_approx \<le> int (length (js ''XT''))
   \<and> minKeyLength demo_approx \<le> int (length (js ''XST''))
   \<and> rules_consume demo_approx \<and> merger_ok demo_approx \<and> lookups_defined demo_approx"
  using keys_at_least_minKeyLength
    [of ascii_unicode "js ''scct''" demo_approx "js ''scct''" demo_rules]
    demo_approx_scct demo_approx_rules_scct demo_approx_ok
  by (simp add: demo_approx_def)

section \<open>Normalization\<close>

lemma space_is_space: "is_space 0x20"
  by (simp add: is_space_def)

lemma az_not_space: "is_az c \<Longrightarrow> \<not> is_space c"
  by (auto simp: is_az_def is_space_def word_le_nat_alt)

lemma az_not_special:
  "is_az c \<Longrightarrow> c \<noteq> 0x20 \<and> c \<noteq> 0xDF \<and> c \<noteq> 0xE4 \<and> c \<noteq> 0xF6 \<and> c \<noteq> 0xFC
     \<and> \<not> (0x300 \<le> c \<and> c \<le> 0x36F)"
  by (auto simp: is_az_def word_le_nat_alt)

lemma single_spaced_chars: "single_spaced b s \<Longrightarrow> \<forall>c\<in>set s. is_az c \<or> c = 0x20"
  by (induction s arbitrary: b) (auto split: if_splits)

lemma single_spaced_weaken: "single_spaced True s \<Longrightarrow> single_spaced False s"
  by (cases s) (auto split: if_splits)

lemma single_spaced_suffix: "single_spaced b (xs @ ys) \<Longrightarrow> single_spaced False ys"
proof (induction xs arbitrary: b)
  case Nil
  then show ?case by (cases b) (auto intro: single_spaced_weaken)
next
  case (Cons x xs)
  then show ?case by (auto split: if_splits)
qed

lemma single_spaced_prefix: "single_spaced b (xs @ ys) \<Longrightarrow> single_spaced b xs"
  by (induction xs arbitrary: b) (auto split: if_splits)

lemma single_spaced_strengthen:
  "single_spaced False s \<Longrightarrow> s = [] \<or> hd s \<noteq> 0x20 \<Longrightarrow> single_spaced True s"
  by (cases s) (auto split: if_splits)

lemma replace_runs_none: "\<forall>c\<in>set s. \<not> P c \<Longrightarrow> replace_runs P rep b s = s"
  by (induction s arbitrary: b) auto

lemma replace_runs_chars:
  "c \<in> set (replace_runs P rep b s) \<Longrightarrow> (c \<in> set s \<and> \<not> P c) \<or> c \<in> set rep"
  by (induction s arbitrary: b) (auto split: if_splits)

lemma replace_char_none: "c \<notin> set s \<Longrightarrow> replace_char c rep s = s"
  by (induction s) (auto simp: replace_char_def)

lemma replace_char_chars:
  "x \<in> set (replace_char c rep s) \<Longrightarrow> (x \<in> set s \<and> x \<noteq> c) \<or> x \<in> set rep"
  by (auto simp: replace_char_def split: if_splits)

lemma replace_runs_single_spaced:
  "\<forall>c\<in>set s. is_az c \<or> is_space c \<Longrightarrow> single_spaced b (replace_runs is_space (js '' '') b s)"
proof (induction s arbitrary: b)
  case Nil
  show ?case by simp
next
  case (Cons c s)
  show ?case
  proof (cases "is_space c")
    case True
    then show ?thesis using Cons by (cases b) (simp_all add: js_def)
  next
    case False
    then have "is_az c" using Cons.prems by simp
    then show ?thesis using False Cons az_not_special [of c] by simp
  qed
qed

lemma replace_runs_fixed:
  "single_spaced b s \<Longrightarrow> replace_runs is_space (js '' '') b s = s"
proof (induction s arbitrary: b)
  case Nil
  show ?case by simp
next
  case (Cons c s)
  show ?case
  proof (cases "c = 0x20")
    case True
    then show ?thesis using Cons space_is_space by (simp add: js_def)
  next
    case False
    then have "is_az c" using Cons.prems by simp
    then show ?thesis using False Cons az_not_space [of c] by simp
  qed
qed

lemma rev_dropWhile_split:
  "u = rev (dropWhile P (rev u)) @ rev (takeWhile P (rev u))"
proof -
  have "rev (takeWhile P (rev u) @ dropWhile P (rev u)) = rev (rev u)"
    by (simp only: takeWhile_dropWhile_id)
  then show ?thesis by (simp only: rev_append rev_rev_ident)
qed

lemma trim_infix:
  "\<exists>pre suf. s = pre @ trim s @ suf"
proof -
  define u where "u = dropWhile is_space s"
  have "s = takeWhile is_space s @ u" by (simp add: u_def)
  moreover have "u = trim s @ rev (takeWhile is_space (rev u))"
    using rev_dropWhile_split [of u is_space] by (simp only: trim_def u_def)
  ultimately have "s = takeWhile is_space s @ trim s @ rev (takeWhile is_space (rev u))"
    by simp
  then show ?thesis by blast
qed

lemma trim_ends:
  assumes "trim s \<noteq> []"
  shows "\<not> is_space (hd (trim s)) \<and> \<not> is_space (last (trim s))"
proof -
  define u where "u = dropWhile is_space s"
  define v where "v = dropWhile is_space (rev u)"
  have t: "trim s = rev v" by (simp add: trim_def u_def v_def)
  then have v: "v \<noteq> []" using assms by simp
  have "\<not> is_space (hd v)" unfolding v_def using v hd_dropWhile v_def by metis
  then have l: "\<not> is_space (last (trim s))" using t v by (simp add: last_rev)
  have u: "u = trim s @ rev (takeWhile is_space (rev u))"
    using rev_dropWhile_split [of u is_space] by (simp only: trim_def u_def)
  then have "u \<noteq> []" using assms by auto
  then have "\<not> is_space (hd u)" unfolding u_def using hd_dropWhile by metis
  moreover have "hd u = hd (trim s)" using u assms by (metis hd_append2)
  ultimately show ?thesis using l by simp
qed

lemma trim_fixed:
  assumes "s = [] \<or> (\<not> is_space (hd s) \<and> \<not> is_space (last s))"
  shows "trim s = s"
proof (cases s)
  case Nil
  then show ?thesis by (simp add: trim_def)
next
  case (Cons c cs)
  then have h: "\<not> is_space (hd s)" and l: "\<not> is_space (last s)" using assms by auto
  have 1: "dropWhile is_space s = s" using h Cons by simp
  have "rev (butlast s @ [last s]) = last s # rev (butlast s)" by simp
  moreover have "butlast s @ [last s] = s" using Cons by simp
  ultimately have r: "rev s = last s # rev (butlast s)" by simp
  have "dropWhile is_space (last s # rev (butlast s)) = last s # rev (butlast s)"
    using l by simp
  then have 2: "dropWhile is_space (rev s) = rev s" by (simp only: r)
  show ?thesis by (simp add: trim_def 1 2)
qed

lemma mapped_chars:
  assumes "c \<in> set (replace_char 0xFC (js ''ue'')
             (replace_char 0xF6 (js ''oe'')
               (replace_char 0xE4 (js ''ae'')
                 (replace_char 0xDF (js ''ss'')
                   (replace_runs
                     (\<lambda>c. \<not> (is_az c \<or> c = 0xDF \<or> c = 0xE4 \<or> c = 0xF6 \<or> c = 0xFC \<or> is_space c))
                     (js '' '') False s)))))"
  shows "is_az c \<or> is_space c"
proof -
  have az: "\<forall>x\<in>set (js ''ue'') \<union> set (js ''oe'') \<union> set (js ''ae'') \<union> set (js ''ss''). is_az x"
    by (simp add: js_def is_az_def)
  have sp: "\<forall>x\<in>set (js '' ''). is_space x"
    by (simp add: js_def is_space_def)
  from assms az sp show ?thesis
    by (blast dest!: replace_char_chars replace_runs_chars)
qed

lemma preprocess_clean: "clean (preprocess U s)"
proof -
  obtain m where p: "preprocess U s = trim (replace_runs is_space (js '' '') False m)"
    and m: "\<forall>c\<in>set m. is_az c \<or> is_space c"
    using mapped_chars by (auto simp: preprocess_def Let_def)
  define w where "w = replace_runs is_space (js '' '') False m"
  have w: "single_spaced False w" unfolding w_def using m by (rule replace_runs_single_spaced)
  obtain pre suf where "w = pre @ trim w @ suf" using trim_infix by blast
  then have "single_spaced False (trim w @ suf)" using w single_spaced_suffix by metis
  then have t: "single_spaced False (trim w)" by (rule single_spaced_prefix)
  have e: "trim w \<noteq> [] \<Longrightarrow> hd (trim w) \<noteq> 0x20 \<and> last (trim w) \<noteq> 0x20"
    using trim_ends [of w] space_is_space by auto
  then have "single_spaced True (trim w)" using t single_spaced_strengthen by blast
  then show ?thesis using e by (simp add: clean_def p w_def)
qed

lemma clean_fixed:
  assumes c: "clean t" and lo: "toLowerCase U t = t" and nf: "normalizeNFKD U t = t"
  shows "preprocess U t = t"
proof -
  have ss: "single_spaced True t" using c by (simp add: clean_def)
  then have ch: "\<forall>x\<in>set t. is_az x \<or> x = 0x20" by (rule single_spaced_chars)
  have 1: "filter (\<lambda>c. \<not> (0x300 \<le> c \<and> c \<le> 0x36F)) t = t"
    using ch az_not_special by (auto simp: filter_id_conv)
  have 2: "replace_runs
      (\<lambda>c. \<not> (is_az c \<or> c = 0xDF \<or> c = 0xE4 \<or> c = 0xF6 \<or> c = 0xFC \<or> is_space c))
      (js '' '') False t = t"
    using ch space_is_space by (intro replace_runs_none) auto
  have "\<not> is_az 0xDF \<and> \<not> is_az 0xE4 \<and> \<not> is_az 0xF6 \<and> \<not> is_az 0xFC"
    by (simp add: is_az_def)
  moreover have "(0xDF::jschar) \<noteq> 0x20 \<and> (0xE4::jschar) \<noteq> 0x20 \<and> (0xF6::jschar) \<noteq> 0x20
      \<and> (0xFC::jschar) \<noteq> 0x20"
    by simp
  ultimately have 3: "0xDF \<notin> set t" "0xE4 \<notin> set t" "0xF6 \<notin> set t" "0xFC \<notin> set t"
    using ch by blast+
  have 4: "replace_runs is_space (js '' '') False t = t"
    using ss single_spaced_weaken replace_runs_fixed by blast
  have 5: "trim t = t"
  proof (cases t)
    case Nil
    then show ?thesis by (simp add: trim_def)
  next
    case (Cons x xs)
    then have "is_az (hd t)" using ss by (auto split: if_splits)
    moreover have "last t \<in> set t" "last t \<noteq> 0x20" using Cons c by (auto simp: clean_def)
    then have "is_az (last t)" using ch by blast
    ultimately show ?thesis using az_not_space by (intro trim_fixed) simp
  qed
  have 6: "replace_char 0xDF (js ''ss'') t = t" "replace_char 0xE4 (js ''ae'') t = t"
    "replace_char 0xF6 (js ''oe'') t = t" "replace_char 0xFC (js ''ue'') t = t"
    by (rule replace_char_none, rule 3)+
  show ?thesis
    by (simp only: preprocess_def Let_def lo nf 1 2 4 5 6)
qed

lemma ascii_unicode_clean:
  "clean t \<Longrightarrow> toLowerCase ascii_unicode t = t \<and> normalizeNFKD ascii_unicode t = t"
proof -
  assume "clean t"
  then have "\<forall>x\<in>set t. is_az x \<or> x = 0x20"
    using single_spaced_chars by (auto simp: clean_def)
  then have "\<forall>x\<in>set t. \<not> (0x41 \<le> x \<and> x \<le> 0x5A)"
    by (auto simp: is_az_def word_le_nat_alt)
  then have "map (\<lambda>c. if 0x41 \<le> c \<and> c \<le> 0x5A then c + 0x20 else c) t = t"
    by (induction t) auto
  then show ?thesis by (simp add: ascii_unicode_def)
qed

text \<open>
  C10: every output of \<open>preprocess\<close> has only the letters a to z, separated by single
  spaces, with no space at either end; such strings are fixed points of \<open>preprocess\<close>, so
  \<open>preprocess\<close> is idempotent, on a platform whose \<open>toLowerCase\<close> and NFKD normalization
  leave such strings as they are.
\<close>

theorem preprocess_idempotent:
  assumes "\<forall>t. clean t \<longrightarrow> toLowerCase U t = t \<and> normalizeNFKD U t = t"
  shows "clean (preprocess U s)
    \<and> (\<forall>t. clean t \<longrightarrow> preprocess U t = t)
    \<and> preprocess U (preprocess U s) = preprocess U s"
  using assms preprocess_clean [of U s] clean_fixed [of _ U] by blast

lemma demo_preprocess:
  "preprocess ascii_unicode (js ''  O'Connor   Mc-X '') = js ''o connor mc x''"
  by code_simp

theorem preprocess_idempotent_witness:
  "preprocess ascii_unicode (js ''  O'Connor   Mc-X '') = js ''o connor mc x''
   \<and> clean (js ''o connor mc x'')
   \<and> preprocess ascii_unicode (js ''o connor mc x'') = js ''o connor mc x''"
proof -
  have h: "\<forall>t. clean t \<longrightarrow> toLowerCase ascii_unicode t = t \<and> normalizeNFKD ascii_unicode t = t"
    using ascii_unicode_clean by blast
  show ?thesis
    using preprocess_idempotent [OF h, of "js ''  O'Connor   Mc-X ''"] demo_preprocess
    by simp
qed

section \<open>Pruning\<close>

lemma frontier_cmp_le:
  "frontier_cmp a b \<le> 0 \<longleftrightarrow> (- pos a, length (key a)) \<le> (- pos b, length (key b))"
  by (auto simp: frontier_cmp_def)

lemma insort_cmp_frontier:
  "insort_cmp frontier_cmp x ys = insort_key (\<lambda>s. (- pos s, length (key s))) x ys"
  by (induction ys) (simp_all add: frontier_cmp_le)

lemma js_sort_frontier:
  "js_sort frontier_cmp fr = sort_key (\<lambda>s. (- pos s, length (key s))) fr"
  by (induction fr) (simp_all add: js_sort_def sort_key_def insort_cmp_frontier)

lemma pruneFrontier_spec: "pruneFrontier fr = spec_prune fr"
  by (simp add: pruneFrontier_def spec_prune_def js_sort_frontier)

lemma fst_push_output: "fst (push_output cfg state c outSym ef) = fst ef + 1"
  by (simp add: push_output_def Let_def)

lemma fst_fold_push:
  "fst (fold (push_output cfg state c) outs ef) = fst ef + int (length outs)"
  by (induction outs arbitrary: ef) (simp_all add: fst_push_output)

lemma fst_apply_rules:
  "fst (apply_rules cfg state app ef) = fst ef + int (length (concat (map outputs app)))"
  unfolding apply_rules_def
  by (induction app arbitrary: ef) (simp_all add: fst_fold_push)

lemma sorted_take: "sorted xs \<Longrightarrow> sorted (take n xs)"
  by (metis append_take_drop_id sorted_append)

lemma push_output_spec:
  "push_output cfg state (consumed r) outSym ef = spec_push cfg (new_element cfg state r outSym) ef"
  by (simp add: push_output_def spec_push_def new_element_def Let_def pruneFrontier_spec)

lemma fold_push_spec:
  "fold (push_output cfg state (consumed r)) outs ef
     = fold (spec_push cfg) (map (new_element cfg state r) outs) ef"
  by (induction outs arbitrary: ef) (simp_all add: push_output_spec)

lemma apply_rules_spec:
  "apply_rules cfg state app ef = fold (spec_push cfg) (pushed cfg state app) ef"
  unfolding apply_rules_def pushed_def
  by (induction app arbitrary: ef) (simp_all add: fold_push_spec)

lemma fst_fold_spec_push: "fst (fold (spec_push cfg) xs ef) = fst ef + int (length xs)"
  by (induction xs arbitrary: ef) (simp_all add: spec_push_def)

lemma fold_spec_push_below:
  "fst ef + int (length xs) \<le> maxExpansions cfg
     \<Longrightarrow> fold (spec_push cfg) xs ef = (fst ef + int (length xs), snd ef @ xs)"
proof (induction xs arbitrary: ef)
  case Nil
  show ?case by simp
next
  case (Cons x xs)
  have "spec_push cfg x ef = (fst ef + 1, snd ef @ [x])"
    using Cons.prems by (simp add: spec_push_def)
  then show ?case using Cons.IH [of "(fst ef + 1, snd ef @ [x])"] Cons.prems by simp
qed

lemma sorted_spec_prune: "sorted (map frontier_order (spec_prune fr))"
proof -
  have "sorted (take 1024 (map frontier_order (sort_key frontier_order fr)))"
    by (intro sorted_take) simp
  then show ?thesis
    by (simp add: spec_prune_def take_map frontier_order_def [abs_def])
qed

lemma fold_spec_push_above:
  assumes "xs \<noteq> []" and "maxExpansions cfg < fst ef + int (length xs)"
  shows "snd (fold (spec_push cfg) xs ef)
     = spec_prune (snd (fold (spec_push cfg) (butlast xs) ef) @ [last xs])"
proof -
  have xs: "xs = butlast xs @ [last xs]" using assms(1) by simp
  define ef1 where "ef1 = fold (spec_push cfg) (butlast xs) ef"
  have "fst ef1 = fst ef + int (length (butlast xs))"
    unfolding ef1_def by (rule fst_fold_spec_push)
  then have "maxExpansions cfg < fst ef1 + 1" using assms by simp
  then have "snd (spec_push cfg (last xs) ef1) = spec_prune (snd ef1 @ [last xs])"
    by (simp add: spec_push_def)
  moreover have "fold (spec_push cfg) xs ef = spec_push cfg (last xs) ef1"
    unfolding ef1_def by (subst xs) (simp only: fold_append fold.simps comp_def id_apply)
  ultimately show ?thesis by (simp add: ef1_def)
qed

lemma step_pass:
  assumes "step tx rs cfg ls state rest = Some ls'"
  shows "(applied tx rs state \<noteq> [] \<longrightarrow>
            (expansions ls', frontier ls')
              = fold (spec_push cfg) (pushed cfg state (applied tx rs state)) (expansions ls, rest))
     \<and> (applied tx rs state = [] \<longrightarrow>
            expansions ls' = expansions ls
            \<and> (frontier ls' = rest \<or> (\<exists>x. frontier ls' = rest @ [x])))"
proof (cases "applied tx rs state = []")
  case True
  then show ?thesis
    using assms
    by (auto simp: step_def applied_def Let_def split: option.splits if_splits)
next
  case False
  then have a: "pos state < int (length tx)" "char_at tx (pos state) \<noteq> Some 0x20"
    "selectApplicableRules tx (pos state) rs \<noteq> []"
    "applied tx rs state = selectApplicableRules tx (pos state) rs"
    by (auto simp: applied_def split: if_splits)
  then have "ls' = ls\<lparr>expansions := fst (apply_rules cfg state (applied tx rs state) (expansions ls, rest)),
      frontier := snd (apply_rules cfg state (applied tx rs state) (expansions ls, rest))\<rparr>"
    using assms by (simp add: step_def Let_def)
  then have "(expansions ls', frontier ls')
      = apply_rules cfg state (applied tx rs state) (expansions ls, rest)"
    by simp
  then show ?thesis using False by (simp add: apply_rules_spec)
qed

lemma reachable_pruned_length:
  "reachable tx rs cfg ls \<Longrightarrow> maxExpansions cfg < expansions ls \<Longrightarrow> length (frontier ls) \<le> 1024"
  using reachable_counted_head [of tx rs cfg ls] by (simp add: counted_head_def)

text \<open>
  C6: in every pass of the loop of \<open>encodeWithRules\<close>, whose counter starts at 0, each
  element pushed for an output of a surviving rule adds one to the counter, and passes
  that apply no rule leave the counter as it is and prune nothing; after each such push,
  when the counter exceeds \<open>maxExpansions\<close>, the frontier, the new element included, is
  replaced by its elements sorted by descending position and then ascending key length
  and cut to 1024, so that the pass leaves exactly the frontier that these pushes and
  prunings give: all pushed elements appended when the counter stays within
  \<open>maxExpansions\<close>, and a sorted frontier of at most 1024 elements when the last push
  takes the counter beyond it. \<open>pruneFrontier\<close> is that sorting and cutting.
\<close>

theorem pass_counts_and_prunes:
  "(step tx rs cfg ls state rest = Some ls' \<longrightarrow>
      expansions ls' = expansions ls + int (length (pushed cfg state (applied tx rs state)))
      \<and> (applied tx rs state \<noteq> [] \<longrightarrow>
            (expansions ls', frontier ls')
              = fold (spec_push cfg) (pushed cfg state (applied tx rs state)) (expansions ls, rest))
      \<and> (applied tx rs state \<noteq> [] \<and> expansions ls' \<le> maxExpansions cfg \<longrightarrow>
            frontier ls' = rest @ pushed cfg state (applied tx rs state))
      \<and> (pushed cfg state (applied tx rs state) \<noteq> [] \<and> maxExpansions cfg < expansions ls' \<longrightarrow>
            frontier ls'
              = spec_prune
                  (snd (fold (spec_push cfg) (butlast (pushed cfg state (applied tx rs state)))
                         (expansions ls, rest))
                   @ [last (pushed cfg state (applied tx rs state))])
            \<and> sorted (map frontier_order (frontier ls'))
            \<and> length (frontier ls') \<le> 1024)
      \<and> (applied tx rs state = [] \<longrightarrow>
            frontier ls' = rest \<or> (\<exists>x. frontier ls' = rest @ [x])))
   \<and> push_output cfg state (consumed r) outSym ef = spec_push cfg (new_element cfg state r outSym) ef
   \<and> pruneFrontier fr = spec_prune fr
   \<and> sorted (map frontier_order (spec_prune fr))
   \<and> length (spec_prune fr) = min 1024 (length fr)
   \<and> mset (spec_prune fr) \<subseteq># mset fr
   \<and> encodeWithRules tx lr cfg
        = encode_loop tx (rules lr) cfg
            \<lparr>results = [], expansions = 0, frontier = [\<lparr>pos = 0, key = []\<rparr>]\<rparr>
   \<and> (reachable tx rs cfg ls \<and> maxExpansions cfg < expansions ls \<longrightarrow> length (frontier ls) \<le> 1024)"
proof -
  let ?xs = "pushed cfg state (applied tx rs state)"
  have pass: "expansions ls' = expansions ls + int (length ?xs)
      \<and> (applied tx rs state \<noteq> [] \<longrightarrow>
            (expansions ls', frontier ls') = fold (spec_push cfg) ?xs (expansions ls, rest))
      \<and> (applied tx rs state \<noteq> [] \<and> expansions ls' \<le> maxExpansions cfg \<longrightarrow>
            frontier ls' = rest @ ?xs)
      \<and> (?xs \<noteq> [] \<and> maxExpansions cfg < expansions ls' \<longrightarrow>
            frontier ls'
              = spec_prune (snd (fold (spec_push cfg) (butlast ?xs) (expansions ls, rest)) @ [last ?xs])
            \<and> sorted (map frontier_order (frontier ls'))
            \<and> length (frontier ls') \<le> 1024)
      \<and> (applied tx rs state = [] \<longrightarrow>
            frontier ls' = rest \<or> (\<exists>x. frontier ls' = rest @ [x]))"
    if st: "step tx rs cfg ls state rest = Some ls'"
  proof -
    note sp = step_pass [OF st]
    have cnt: "expansions ls' = expansions ls + int (length ?xs)"
    proof (cases "applied tx rs state = []")
      case True
      then show ?thesis using sp by (simp add: pushed_def)
    next
      case False
      then have "(expansions ls', frontier ls') = fold (spec_push cfg) ?xs (expansions ls, rest)"
        using sp by blast
      then have "expansions ls' = fst (fold (spec_push cfg) ?xs (expansions ls, rest))"
        by (metis fst_conv)
      then show ?thesis by (simp add: fst_fold_spec_push)
    qed
    have below: "frontier ls' = rest @ ?xs"
      if "applied tx rs state \<noteq> []" "expansions ls' \<le> maxExpansions cfg"
    proof -
      have "(expansions ls', frontier ls') = fold (spec_push cfg) ?xs (expansions ls, rest)"
        using sp that(1) by blast
      moreover have "fold (spec_push cfg) ?xs (expansions ls, rest)
          = (expansions ls + int (length ?xs), rest @ ?xs)"
        using fold_spec_push_below [of "(expansions ls, rest)" ?xs cfg] that(2) cnt by simp
      ultimately show ?thesis by simp
    qed
    have above: "frontier ls'
          = spec_prune (snd (fold (spec_push cfg) (butlast ?xs) (expansions ls, rest)) @ [last ?xs])
        \<and> sorted (map frontier_order (frontier ls'))
        \<and> length (frontier ls') \<le> 1024"
      if "?xs \<noteq> []" "maxExpansions cfg < expansions ls'"
    proof -
      have "applied tx rs state \<noteq> []" using that(1) by (auto simp: pushed_def)
      then have "(expansions ls', frontier ls') = fold (spec_push cfg) ?xs (expansions ls, rest)"
        using sp by blast
      then have "frontier ls' = snd (fold (spec_push cfg) ?xs (expansions ls, rest))"
        by (metis snd_conv)
      moreover have "snd (fold (spec_push cfg) ?xs (expansions ls, rest))
          = spec_prune (snd (fold (spec_push cfg) (butlast ?xs) (expansions ls, rest)) @ [last ?xs])"
        using fold_spec_push_above [OF that(1), of cfg "(expansions ls, rest)"] that(2) cnt by simp
      ultimately have eq: "frontier ls'
          = spec_prune (snd (fold (spec_push cfg) (butlast ?xs) (expansions ls, rest)) @ [last ?xs])"
        by simp
      have s1: "sorted (map frontier_order (frontier ls'))"
        unfolding eq by (rule sorted_spec_prune)
      have s2: "length (frontier ls') \<le> 1024"
        unfolding eq by (simp add: spec_prune_def)
      show ?thesis using eq s1 s2 by blast
    qed
    show ?thesis using cnt sp below above by blast
  qed
  have sorted: "sorted (map frontier_order (spec_prune fr))" by (rule sorted_spec_prune)
  have len: "length (spec_prune fr) = min 1024 (length fr)"
    by (simp add: spec_prune_def min.commute)
  have sub: "mset (spec_prune fr) \<subseteq># mset fr"
    using mset_pruneFrontier [of fr] by (simp add: pruneFrontier_spec)
  have call: "encodeWithRules tx lr cfg
        = encode_loop tx (rules lr) cfg
            \<lparr>results = [], expansions = 0, frontier = [\<lparr>pos = 0, key = []\<rparr>]\<rparr>"
    by (simp add: encodeWithRules_def)
  show ?thesis
    using pass push_output_spec [of cfg state r outSym ef] pruneFrontier_spec [of fr] sorted len
      sub call reachable_pruned_length [of tx rs cfg ls]
    by blast
qed

lemma demo_pass:
  "step (js ''scct'') (rules demo_rules) demo_exact
      \<lparr>results = [], expansions = 2,
         frontier = [\<lparr>pos = 2, key = js ''SK''\<rparr>, \<lparr>pos = 1, key = js ''S''\<rparr>]\<rparr>
      \<lparr>pos = 2, key = js ''SK''\<rparr> [\<lparr>pos = 1, key = js ''S''\<rparr>]
    = Some \<lparr>results = [], expansions = 4,
             frontier = [\<lparr>pos = 3, key = js ''SKK''\<rparr>, \<lparr>pos = 3, key = js ''SKS''\<rparr>,
                         \<lparr>pos = 1, key = js ''S''\<rparr>]\<rparr>"
  by (simp add: step_def char_at_def selectApplicableRules_def rule_matches_def startsWith_def
      consumed_def max_of_def apply_rules_def push_output_def pruneFrontier_def js_sort_def
      frontier_cmp_def js_def demo_rules_def plain_rule_def demo_exact_def Let_def)

lemma demo_pushed:
  "pushed demo_exact \<lparr>pos = 2, key = js ''SK''\<rparr>
      (applied (js ''scct'') (rules demo_rules) \<lparr>pos = 2, key = js ''SK''\<rparr>)
    = [\<lparr>pos = 3, key = js ''SKK''\<rparr>, \<lparr>pos = 3, key = js ''SKS''\<rparr>]"
  by (simp add: pushed_def applied_def new_element_def char_at_def selectApplicableRules_def
      rule_matches_def startsWith_def consumed_def max_of_def js_def demo_rules_def
      plain_rule_def demo_exact_def Let_def)

theorem pass_counts_and_prunes_witness:
  "step (js ''scct'') (rules demo_rules) demo_exact
      \<lparr>results = [], expansions = 2,
         frontier = [\<lparr>pos = 2, key = js ''SK''\<rparr>, \<lparr>pos = 1, key = js ''S''\<rparr>]\<rparr>
      \<lparr>pos = 2, key = js ''SK''\<rparr> [\<lparr>pos = 1, key = js ''S''\<rparr>]
    = Some \<lparr>results = [], expansions = 4,
             frontier = [\<lparr>pos = 3, key = js ''SKK''\<rparr>, \<lparr>pos = 3, key = js ''SKS''\<rparr>,
                         \<lparr>pos = 1, key = js ''S''\<rparr>]\<rparr>
   \<and> fold (spec_push demo_exact) [\<lparr>pos = 3, key = js ''SKK''\<rparr>, \<lparr>pos = 3, key = js ''SKS''\<rparr>]
         (2, [\<lparr>pos = 1, key = js ''S''\<rparr>])
       = (4, [\<lparr>pos = 3, key = js ''SKK''\<rparr>, \<lparr>pos = 3, key = js ''SKS''\<rparr>,
              \<lparr>pos = 1, key = js ''S''\<rparr>])
   \<and> maxExpansions demo_exact = 2
   \<and> sorted (map frontier_order
        [\<lparr>pos = 3, key = js ''SKK''\<rparr>, \<lparr>pos = 3, key = js ''SKS''\<rparr>, \<lparr>pos = 1, key = js ''S''\<rparr>])"
proof -
  have m: "maxExpansions demo_exact = 2" by (simp add: demo_exact_def)
  note t = pass_counts_and_prunes [of "js ''scct''" "rules demo_rules" demo_exact
      "\<lparr>results = [], expansions = 2,
         frontier = [\<lparr>pos = 2, key = js ''SK''\<rparr>, \<lparr>pos = 1, key = js ''S''\<rparr>]\<rparr>"
      "\<lparr>pos = 2, key = js ''SK''\<rparr>" "[\<lparr>pos = 1, key = js ''S''\<rparr>]"
      "\<lparr>results = [], expansions = 4,
             frontier = [\<lparr>pos = 3, key = js ''SKK''\<rparr>, \<lparr>pos = 3, key = js ''SKS''\<rparr>,
                         \<lparr>pos = 1, key = js ''S''\<rparr>]\<rparr>"]
  have a: "applied (js ''scct'') (rules demo_rules) \<lparr>pos = 2, key = js ''SK''\<rparr> \<noteq> []"
    using demo_pushed by (auto simp: pushed_def)
  have f: "fold (spec_push demo_exact) [\<lparr>pos = 3, key = js ''SKK''\<rparr>, \<lparr>pos = 3, key = js ''SKS''\<rparr>]
         (2, [\<lparr>pos = 1, key = js ''S''\<rparr>])
       = (4, [\<lparr>pos = 3, key = js ''SKK''\<rparr>, \<lparr>pos = 3, key = js ''SKS''\<rparr>,
              \<lparr>pos = 1, key = js ''S''\<rparr>])"
    using t demo_pass a by (simp add: demo_pushed)
  have s: "sorted (map frontier_order
        [\<lparr>pos = 3, key = js ''SKK''\<rparr>, \<lparr>pos = 3, key = js ''SKS''\<rparr>, \<lparr>pos = 1, key = js ''S''\<rparr>])"
    using t demo_pass m by (simp add: demo_pushed)
  show ?thesis using demo_pass f m s by simp
qed

section \<open>EXACT against APPROX\<close>

lemma demo_exact_a:
  "bmpmEncode ascii_unicode (js ''a'') demo_exact
     = Some [\<lparr>r_language = js ''english'', keys = [js ''A'']\<rparr>]"
  by code_simp

lemma demo_approx_of_a:
  "bmpmEncode ascii_unicode (js ''a'') (approx_of demo_exact [(js ''K'', js ''C''), (js ''SK'', js ''X'')])
     = Some []"
  by code_simp

lemma merge_loop_nonempty:
  assumes ret: "merge_loop symbols0 k0 i0 out0 = Some r0"
  shows "(\<forall>e\<in>set symbols0. snd e \<noteq> []) \<longrightarrow> (out0 \<noteq> [] \<or> i0 < length k0) \<longrightarrow> r0 \<noteq> []"
proof (rule merge_loop.raw_induct
    [where P = "\<lambda>symbols k i out r.
       (\<forall>e\<in>set symbols. snd e \<noteq> []) \<longrightarrow> (out \<noteq> [] \<or> i < length k) \<longrightarrow> r \<noteq> []", OF _ ret])
  fix f symbols k i out and r :: jsstring
  assume IH: "\<And>symbols k i out r. f symbols k i out = Some r \<Longrightarrow>
      (\<forall>e\<in>set symbols. snd e \<noteq> []) \<longrightarrow> (out \<noteq> [] \<or> i < length k) \<longrightarrow> r \<noteq> []"
    and body: "(if i < length k then
        (case find (\<lambda>e. startsWith k (fst e) (int i)) symbols of
           None \<Rightarrow> f symbols k (i + 1) (out @ [k ! i])
         | Some e \<Rightarrow> f symbols k (i + length (fst e)) (out @ snd e))
      else Some out) = Some r"
  show "(\<forall>e\<in>set symbols. snd e \<noteq> []) \<longrightarrow> (out \<noteq> [] \<or> i < length k) \<longrightarrow> r \<noteq> []"
  proof (intro impI)
    assume v: "\<forall>e\<in>set symbols. snd e \<noteq> []" and ne: "out \<noteq> [] \<or> i < length k"
    show "r \<noteq> []"
    proof (cases "i < length k")
      case False
      then show ?thesis using body ne by simp
    next
      case True
      show ?thesis
      proof (cases "find (\<lambda>e. startsWith k (fst e) (int i)) symbols")
        case None
        then have "f symbols k (i + 1) (out @ [k ! i]) = Some r" using body True by simp
        from IH [OF this] v show ?thesis by simp
      next
        case (Some e)
        then have "f symbols k (i + length (fst e)) (out @ snd e) = Some r"
          using body True by simp
        moreover have "e \<in> set symbols" using Some by (auto simp: find_Some_iff)
        then have "snd e \<noteq> []" using v by blast
        ultimately show ?thesis using IH v by (metis append_is_Nil_conv)
      qed
    qed
  qed
qed

lemma collapseRepeats_nonempty: "k \<noteq> [] \<Longrightarrow> collapseRepeats k \<noteq> []"
  by (cases k) auto

lemma finalizeKey_exact: "ruleType cfg = EXACT \<Longrightarrow> finalizeKey k cfg = Some k"
  by (simp add: finalizeKey_def)

lemma finalizeKey_approx_nonempty:
  assumes "finalizeKey k (approx_mode cfg m) = Some f" and "\<forall>e\<in>set m. snd e \<noteq> []"
    and "k \<noteq> []"
  shows "f \<noteq> []"
proof -
  obtain r where r: "merge_loop (js_sort (\<lambda>a b. int (length (fst b)) - int (length (fst a))) m) k 0 []
      = Some r" and f: "f = collapseRepeats r"
    using assms(1) by (auto simp: finalizeKey_def approx_mode_def applyMergerTable_def)
  have "\<forall>e\<in>set (js_sort (\<lambda>a b. int (length (fst b)) - int (length (fst a))) m). snd e \<noteq> []"
    using assms(2) by (simp add: set_js_sort)
  then have "r \<noteq> []" using merge_loop_nonempty [OF r] assms(3) by simp
  then show ?thesis using f collapseRepeats_nonempty by simp
qed

lemma finalizeKey_keeps_length:
  assumes "keeps_length cfg m" and "finalizeKey k (approx_mode cfg m) = Some f"
    and "minKeyLength cfg \<le> int (length k)"
  shows "minKeyLength cfg \<le> int (length f)"
proof (cases "minKeyLength cfg \<le> 0")
  case True
  then show ?thesis by simp
next
  case False
  then have m1: "minKeyLength cfg \<le> 1" and v: "\<forall>e\<in>set m. snd e \<noteq> []"
    using assms(1) by (auto simp: keeps_length_def)
  have "k \<noteq> []" using False assms(3) by auto
  then have "f \<noteq> []" using finalizeKey_approx_nonempty [OF assms(2) v] by simp
  then have "1 \<le> int (length f)" by (cases f) auto
  then show ?thesis using m1 by simp
qed

lemma merger_ok_approx_mode: "\<forall>e\<in>set m. fst e \<noteq> [] \<Longrightarrow> merger_ok (approx_mode cfg m)"
  by (simp add: merger_ok_def approx_mode_def)

lemma apply_rules_approx_mode:
  "apply_rules (approx_mode cfg m) state app ef = apply_rules cfg state app ef"
proof -
  have "push_output (approx_mode cfg m) = push_output cfg"
    by (intro ext) (simp add: push_output_def approx_mode_def)
  then show ?thesis by (simp add: apply_rules_def)
qed

lemma set_pruneFrontier: "set (pruneFrontier fr) \<subseteq> set fr"
  using mset_pruneFrontier [of fr] by (metis set_mset_mono set_mset_mset)

lemma push_output_positions:
  assumes "\<forall>s\<in>set (snd ef). 0 \<le> pos s" and "0 \<le> pos state + c"
  shows "\<forall>s\<in>set (snd (push_output cfg state c outSym ef)). 0 \<le> pos s"
proof -
  define k where
    "k = (if collapseDuplicates cfg then collapseRepeats (key state @ outSym) else key state @ outSym)"
  define fr where "fr = snd ef @ [\<lparr>pos = pos state + c, key = k\<rparr>]"
  have fr: "\<forall>s\<in>set fr. 0 \<le> pos s" using assms by (auto simp: fr_def)
  have "snd (push_output cfg state c outSym ef) = pruneFrontier fr
      \<or> snd (push_output cfg state c outSym ef) = fr"
    by (simp add: push_output_def Let_def fr_def k_def)
  then show ?thesis using fr set_pruneFrontier [of fr] by auto
qed

lemma fold_push_positions:
  assumes "0 \<le> pos state + c"
  shows "\<forall>s\<in>set (snd ef). 0 \<le> pos s
    \<Longrightarrow> \<forall>s\<in>set (snd (fold (push_output cfg state c) outs ef)). 0 \<le> pos s"
proof (induction outs arbitrary: ef)
  case Nil
  then show ?case by simp
next
  case (Cons a outs)
  have "\<forall>s\<in>set (snd (push_output cfg state c a ef)). 0 \<le> pos s"
    using Cons.prems assms by (rule push_output_positions)
  then show ?case using Cons.IH by simp
qed

lemma apply_rules_positions:
  assumes "0 \<le> pos state"
  shows "\<forall>r\<in>set app. 0 \<le> consumed r \<Longrightarrow> \<forall>s\<in>set (snd ef). 0 \<le> pos s
    \<Longrightarrow> \<forall>s\<in>set (snd (apply_rules cfg state app ef)). 0 \<le> pos s"
proof (induction app arbitrary: ef)
  case Nil
  then show ?case by (simp add: apply_rules_def)
next
  case (Cons r app)
  have "0 \<le> pos state + consumed r" using assms Cons.prems(1) by simp
  then have "\<forall>s\<in>set (snd (fold (push_output cfg state (consumed r)) (outputs r) ef)). 0 \<le> pos s"
    using Cons.prems(2) by (rule fold_push_positions)
  moreover have "apply_rules cfg state (r # app) ef
      = apply_rules cfg state app (fold (push_output cfg state (consumed r)) (outputs r) ef)"
    by (simp add: apply_rules_def)
  ultimately show ?case using Cons.IH Cons.prems(1) by simp
qed

lemma folded_into_set_add:
  assumes "folded_into cfg ks ks'"
  shows "folded_into cfg ks (set_add f ks')"
  using assms by (auto simp: folded_into_def set_add_def)

lemma step_related:
  assumes E: "ruleType E = EXACT" and mo: "\<forall>e\<in>set m. fst e \<noteq> []"
    and cov: "vowels_covered_rules rs" and rc: "\<forall>r\<in>set rs. 1 \<le> consumed r"
    and kl: "keeps_length E m"
    and st: "step tx rs E lsE state rest = Some lsE'"
    and p0: "0 \<le> pos state" and pr: "\<forall>s\<in>set rest. 0 \<le> pos s"
    and ex: "expansions lsA = expansions lsE"
    and fo: "folded_into (approx_mode E m) (results lsE) (results lsA)"
  shows "\<exists>lsA'. step tx rs (approx_mode E m) lsA state rest = Some lsA'
      \<and> frontier lsA' = frontier lsE' \<and> expansions lsA' = expansions lsE'
      \<and> (\<forall>s\<in>set (frontier lsE'). 0 \<le> pos s)
      \<and> folded_into (approx_mode E m) (results lsE') (results lsA')"
proof (cases "pos state \<ge> int (length tx)")
  case True
  obtain f where f: "finalizeKey (key state) (approx_mode E m) = Some f"
    using finalizeKey_returns [OF merger_ok_approx_mode [OF mo]] by blast
  define lsA' where "lsA' = lsA\<lparr>frontier := rest,
      results := (if int (length f) \<ge> minKeyLength (approx_mode E m)
                  then set_add f (results lsA) else results lsA)\<rparr>"
  have sA: "step tx rs (approx_mode E m) lsA state rest = Some lsA'"
    using True f by (simp add: step_def lsA'_def)
  have lsE': "lsE' = lsE\<lparr>frontier := rest,
      results := (if int (length (key state)) \<ge> minKeyLength E
                  then set_add (key state) (results lsE) else results lsE)\<rparr>"
    using st True E by (simp add: step_def finalizeKey_exact)
  have mk: "minKeyLength (approx_mode E m) = minKeyLength E" by (simp add: approx_mode_def)
  have "folded_into (approx_mode E m) (results lsE') (results lsA')"
  proof (cases "int (length (key state)) \<ge> minKeyLength E")
    case False
    then show ?thesis
      using fo folded_into_set_add [OF fo, of f] by (simp add: lsE' lsA'_def)
  next
    case len: True
    then have lf: "minKeyLength E \<le> int (length f)"
      using finalizeKey_keeps_length [OF kl f] by simp
    have "f \<in> set (set_add f (results lsA))" by (simp add: set_add_def)
    moreover have "folded_into (approx_mode E m) (results lsE) (set_add f (results lsA))"
      using fo by (rule folded_into_set_add)
    ultimately have "folded_into (approx_mode E m) (set_add (key state) (results lsE))
        (set_add f (results lsA))"
      using f by (auto simp: folded_into_def set_add_def)
    then show ?thesis using len lf by (simp add: lsE' lsA'_def mk)
  qed
  then show ?thesis using sA pr ex by (auto simp: lsE' lsA'_def)
next
  case False
  then have lt: "pos state < int (length tx)" by simp
  show ?thesis
  proof (cases "char_at tx (pos state) = Some 0x20")
    case True
    define x where "x = \<lparr>pos = pos state + 1, key = key state\<rparr>"
    have "lsE' = lsE\<lparr>frontier := rest @ [x]\<rparr>"
      using st False True by (simp add: step_def Let_def x_def)
    moreover have "step tx rs (approx_mode E m) lsA state rest = Some (lsA\<lparr>frontier := rest @ [x]\<rparr>)"
      using False True by (simp add: step_def Let_def x_def)
    moreover have "0 \<le> pos x" using p0 by (simp add: x_def)
    ultimately show ?thesis using pr ex fo by auto
  next
    case nsp: False
    show ?thesis
    proof (cases "selectApplicableRules tx (pos state) rs = []")
      case True
      then have nv: "\<not> isVowel (char_at tx (pos state))"
        using cov p0 lt unfolding vowels_covered_rules_def by blast
      define x where "x = \<lparr>pos = pos state + 1, key = key state\<rparr>"
      have fb: "fallbackMapChar (char_at tx (pos state)) (ruleType E) = []"
        "fallbackMapChar (char_at tx (pos state)) (ruleType (approx_mode E m)) = []"
        using nv by (simp_all add: fallbackMapChar_def approx_mode_def)
      have "lsE' = lsE\<lparr>frontier := rest @ [x]\<rparr>"
        using st False nsp True fb by (simp add: step_def Let_def x_def)
      moreover have "step tx rs (approx_mode E m) lsA state rest
          = Some (lsA\<lparr>frontier := rest @ [x]\<rparr>)"
        using False nsp True fb by (simp add: step_def Let_def x_def)
      moreover have "0 \<le> pos x" using p0 by (simp add: x_def)
      ultimately show ?thesis using pr ex fo by auto
    next
      case app: False
      define ef where
        "ef = apply_rules E state (selectApplicableRules tx (pos state) rs) (expansions lsE, rest)"
      have lsE': "lsE' = lsE\<lparr>expansions := fst ef, frontier := snd ef\<rparr>"
        using st False nsp app by (simp add: step_def Let_def ef_def)
      have sA: "step tx rs (approx_mode E m) lsA state rest
          = Some (lsA\<lparr>expansions := fst ef, frontier := snd ef\<rparr>)"
        using False nsp app ex by (simp add: step_def Let_def ef_def apply_rules_approx_mode)
      have "\<forall>r\<in>set (selectApplicableRules tx (pos state) rs). 0 \<le> consumed r"
        using rc select_subset [of tx "pos state" rs] by fastforce
      then have "\<forall>s\<in>set (snd ef). 0 \<le> pos s"
        unfolding ef_def using pr by (intro apply_rules_positions [OF p0]) simp_all
      then show ?thesis using sA fo by (auto simp: lsE')
    qed
  qed
qed

lemma encode_loop_related:
  assumes ret: "encode_loop tx0 rs0 E0 ls0 = Some ks0"
  shows "\<forall>m lsA. ruleType E0 = EXACT \<longrightarrow> (\<forall>e\<in>set m. fst e \<noteq> []) \<longrightarrow> vowels_covered_rules rs0
      \<longrightarrow> (\<forall>r\<in>set rs0. 1 \<le> consumed r) \<longrightarrow> keeps_length E0 m
      \<longrightarrow> frontier lsA = frontier ls0 \<longrightarrow> expansions lsA = expansions ls0
      \<longrightarrow> (\<forall>s\<in>set (frontier ls0). 0 \<le> pos s)
      \<longrightarrow> folded_into (approx_mode E0 m) (results ls0) (results lsA)
      \<longrightarrow> (\<exists>ksA. encode_loop tx0 rs0 (approx_mode E0 m) lsA = Some ksA
            \<and> folded_into (approx_mode E0 m) ks0 ksA)"
proof (rule encode_loop.raw_induct
    [where P = "\<lambda>tx rs E ls ks.
      \<forall>m lsA. ruleType E = EXACT \<longrightarrow> (\<forall>e\<in>set m. fst e \<noteq> []) \<longrightarrow> vowels_covered_rules rs
      \<longrightarrow> (\<forall>r\<in>set rs. 1 \<le> consumed r) \<longrightarrow> keeps_length E m
      \<longrightarrow> frontier lsA = frontier ls \<longrightarrow> expansions lsA = expansions ls
      \<longrightarrow> (\<forall>s\<in>set (frontier ls). 0 \<le> pos s)
      \<longrightarrow> folded_into (approx_mode E m) (results ls) (results lsA)
      \<longrightarrow> (\<exists>ksA. encode_loop tx rs (approx_mode E m) lsA = Some ksA
            \<and> folded_into (approx_mode E m) ks ksA)", OF _ ret])
  fix f tx rs E ls and ks :: "jsstring list"
  assume IH: "\<And>tx rs E ls ks. f tx rs E ls = Some ks \<Longrightarrow>
      \<forall>m lsA. ruleType E = EXACT \<longrightarrow> (\<forall>e\<in>set m. fst e \<noteq> []) \<longrightarrow> vowels_covered_rules rs
      \<longrightarrow> (\<forall>r\<in>set rs. 1 \<le> consumed r) \<longrightarrow> keeps_length E m
      \<longrightarrow> frontier lsA = frontier ls \<longrightarrow> expansions lsA = expansions ls
      \<longrightarrow> (\<forall>s\<in>set (frontier ls). 0 \<le> pos s)
      \<longrightarrow> folded_into (approx_mode E m) (results ls) (results lsA)
      \<longrightarrow> (\<exists>ksA. encode_loop tx rs (approx_mode E m) lsA = Some ksA
            \<and> folded_into (approx_mode E m) ks ksA)"
    and body: "(case frontier ls of [] \<Rightarrow> Some (results ls)
        | state # rest \<Rightarrow> Option.bind (step tx rs E ls state rest) (f tx rs E)) = Some ks"
  show "\<forall>m lsA. ruleType E = EXACT \<longrightarrow> (\<forall>e\<in>set m. fst e \<noteq> []) \<longrightarrow> vowels_covered_rules rs
      \<longrightarrow> (\<forall>r\<in>set rs. 1 \<le> consumed r) \<longrightarrow> keeps_length E m
      \<longrightarrow> frontier lsA = frontier ls \<longrightarrow> expansions lsA = expansions ls
      \<longrightarrow> (\<forall>s\<in>set (frontier ls). 0 \<le> pos s)
      \<longrightarrow> folded_into (approx_mode E m) (results ls) (results lsA)
      \<longrightarrow> (\<exists>ksA. encode_loop tx rs (approx_mode E m) lsA = Some ksA
            \<and> folded_into (approx_mode E m) ks ksA)"
  proof (intro allI impI)
    fix m :: "(jsstring \<times> jsstring) list" and lsA :: LoopState
    assume E: "ruleType E = EXACT" and mo: "\<forall>e\<in>set m. fst e \<noteq> []"
      and cov: "vowels_covered_rules rs" and rc: "\<forall>r\<in>set rs. 1 \<le> consumed r"
      and kl: "keeps_length E m" and fr: "frontier lsA = frontier ls"
      and ex: "expansions lsA = expansions ls" and ps: "\<forall>s\<in>set (frontier ls). 0 \<le> pos s"
      and fo: "folded_into (approx_mode E m) (results ls) (results lsA)"
    show "\<exists>ksA. encode_loop tx rs (approx_mode E m) lsA = Some ksA
        \<and> folded_into (approx_mode E m) ks ksA"
    proof (cases "frontier ls")
      case Nil
      then have "ks = results ls" using body by simp
      moreover have "encode_loop tx rs (approx_mode E m) lsA = Some (results lsA)"
        using Nil fr by (subst encode_loop.simps) simp
      ultimately show ?thesis using fo by simp
    next
      case (Cons state rest)
      then obtain ls' where st: "step tx rs E ls state rest = Some ls'"
        and f: "f tx rs E ls' = Some ks"
        using body by (auto simp: bind_eq_Some_conv)
      have p0: "0 \<le> pos state" and pr: "\<forall>s\<in>set rest. 0 \<le> pos s" using ps Cons by auto
      obtain lsA' where sA: "step tx rs (approx_mode E m) lsA state rest = Some lsA'"
        and r: "frontier lsA' = frontier ls'" "expansions lsA' = expansions ls'"
          "\<forall>s\<in>set (frontier ls'). 0 \<le> pos s"
          "folded_into (approx_mode E m) (results ls') (results lsA')"
        using step_related [OF E mo cov rc kl st p0 pr ex fo] by blast
      obtain ksA where k: "encode_loop tx rs (approx_mode E m) lsA' = Some ksA"
        "folded_into (approx_mode E m) ks ksA"
        using IH [OF f] E mo cov rc kl r by blast
      have "encode_loop tx rs (approx_mode E m) lsA = Some ksA"
        using Cons fr sA k(1) by (subst encode_loop.simps) simp
      then show ?thesis using k(2) by blast
    qed
  qed
qed

lemma encodeWithRules_related:
  assumes "ruleType E = EXACT" and "\<forall>e\<in>set m. fst e \<noteq> []"
    and "vowels_covered_rules (rules lr)" and "\<forall>r\<in>set (rules lr). 1 \<le> consumed r"
    and "keeps_length E m" and "encodeWithRules tx lr E = Some ks"
  shows "\<exists>ksA. encodeWithRules tx lr (approx_mode E m) = Some ksA
      \<and> folded_into (approx_mode E m) ks ksA"
proof -
  let ?init = "\<lparr>results = [], expansions = 0, frontier = [\<lparr>pos = 0, key = []\<rparr>]\<rparr>"
  have "encode_loop tx (rules lr) E ?init = Some ks"
    using assms(6) by (simp add: encodeWithRules_def)
  from encode_loop_related [OF this] assms(1-5)
  have "\<exists>ksA. encode_loop tx (rules lr) (approx_mode E m) ?init = Some ksA
      \<and> folded_into (approx_mode E m) ks ksA"
    by (simp add: folded_into_def)
  then show ?thesis by (simp add: encodeWithRules_def)
qed

lemma approx_mode_same:
  "lookup_rules (approx_mode E m) l = lookup_rules E l"
  "languageRuleSets (approx_mode E m) = languageRuleSets E"
  "transliterateForLanguage name l (approx_mode E m) = transliterateForLanguage name l E"
  "detectLanguages name (approx_mode E m) = detectLanguages name E"
  "minKeyLength (approx_mode E m) = minKeyLength E"
  by (simp_all add: lookup_rules_def transliterateForLanguage_def detectLanguages_def
      approx_mode_def)

lemma finalizeKey_empty_approx: "finalizeKey [] (approx_mode E m) = Some []"
  by (simp add: finalizeKey_def approx_mode_def applyMergerTable_def merge_loop.simps)

lemma encode_found_related:
  assumes E: "ruleType E = EXACT" and mo: "\<forall>e\<in>set m. fst e \<noteq> []"
    and rc: "rules_consume E" and cov: "vowels_covered E" and kl: "keeps_length E m"
    and lk: "lookup_rules E l = Some found" and enc: "encode_found tx found E = Some ks"
  shows "\<exists>ksA. encode_found tx found (approx_mode E m) = Some ksA
      \<and> folded_into (approx_mode E m) ks ksA"
proof (cases found)
  case (Registered lr)
  then have l: "languageRuleSets E l = Some lr"
    using lk by (auto simp: lookup_rules_def split: option.splits if_splits)
  have "vowels_covered_rules (rules lr)" using cov l unfolding vowels_covered_def by blast
  moreover have "\<forall>r\<in>set (rules lr). 1 \<le> consumed r"
    using rc l unfolding rules_consume_def by blast
  moreover have "encodeWithRules tx lr E = Some ks" using enc Registered by simp
  ultimately show ?thesis
    using encodeWithRules_related [OF E mo _ _ kl] Registered by simp
next
  case Inherited
  then have u: "encodeWithRules_undefined tx E = Some ks" using enc by simp
  then have sp: "list_all (\<lambda>c. c = 0x20) tx"
    by (auto simp: encodeWithRules_undefined_def split: if_splits)
  then have ks: "ks = (if 0 \<ge> minKeyLength E then [[]] else [])"
    using u E by (simp add: encodeWithRules_undefined_def finalizeKey_exact)
  have "encodeWithRules_undefined tx (approx_mode E m) = Some ks"
    using sp ks by (simp add: encodeWithRules_undefined_def finalizeKey_empty_approx approx_mode_same)
  moreover have "folded_into (approx_mode E m) ks ks"
    using ks by (auto simp: folded_into_def finalizeKey_empty_approx split: if_splits)
  ultimately show ?thesis using Inherited by simp
qed

lemma folded_into_nonempty: "folded_into cfg ks ks' \<Longrightarrow> ks \<noteq> [] \<Longrightarrow> ks' \<noteq> []"
  by (cases ks) (auto simp: folded_into_def)

lemma folded_into_append:
  "folded_into cfg xs xs' \<Longrightarrow> folded_into cfg ys ys' \<Longrightarrow> folded_into cfg (xs @ ys) (xs' @ ys')"
  by (auto simp: folded_into_def)

lemma encode_langs_related:
  assumes E: "ruleType E = EXACT" and mo: "\<forall>e\<in>set m. fst e \<noteq> []"
    and rc: "rules_consume E" and cov: "vowels_covered E" and kl: "keeps_length E m"
  shows "encode_langs U E raw langs outE = Some resE
    \<Longrightarrow> folded_into (approx_mode E m) (concat (map keys outE)) (concat (map keys outA))
    \<Longrightarrow> \<exists>resA. encode_langs U (approx_mode E m) raw langs outA = Some resA
          \<and> folded_into (approx_mode E m) (concat (map keys resE)) (concat (map keys resA))"
proof (induction langs arbitrary: outE outA)
  case Nil
  then show ?case by simp
next
  case (Cons l langs)
  show ?case
  proof (cases "lookup_rules E (fst l)")
    case None
    then show ?thesis using Cons by (simp add: approx_mode_same)
  next
    case (Some found)
    define norm where "norm = preprocess U (transliterateForLanguage raw (fst l) E)"
    show ?thesis
    proof (cases "norm = []")
      case True
      then show ?thesis using Some Cons by (simp add: Let_def norm_def approx_mode_same)
    next
      case False
      then obtain ks where ks: "encode_found norm found E = Some ks"
        using Cons.prems(1) Some by (auto simp: Let_def norm_def split: option.splits)
      define outE' where
        "outE' = (if ks \<noteq> [] then outE @ [\<lparr>r_language = fst l, keys = ks\<rparr>] else outE)"
      have eE: "encode_langs U E raw langs outE' = Some resE"
        using Cons.prems(1) Some False ks by (simp add: Let_def norm_def outE'_def)
      obtain ksA where ksA: "encode_found norm found (approx_mode E m) = Some ksA"
        and fk: "folded_into (approx_mode E m) ks ksA"
        using encode_found_related [OF E mo rc cov kl Some ks] by blast
      define outA' where
        "outA' = (if ksA \<noteq> [] then outA @ [\<lparr>r_language = fst l, keys = ksA\<rparr>] else outA)"
      have 1: "concat (map keys outE') = concat (map keys outE) @ ks"
        by (simp add: outE'_def)
      have 2: "concat (map keys outA') = concat (map keys outA) @ ksA"
        by (simp add: outA'_def)
      have "folded_into (approx_mode E m) (concat (map keys outE')) (concat (map keys outA'))"
        unfolding 1 2 using Cons.prems(2) fk by (rule folded_into_append)
      from Cons.IH [OF eE this] obtain resA where
        "encode_langs U (approx_mode E m) raw langs outA' = Some resA"
        "folded_into (approx_mode E m) (concat (map keys resE)) (concat (map keys resA))"
        by blast
      then show ?thesis
        using Some False ksA by (simp add: Let_def norm_def outA'_def approx_mode_same)
    qed
  qed
qed

lemma bmpmEncode_related:
  assumes E: "ruleType E = EXACT" and rc: "rules_consume E" and cov: "vowels_covered E"
    and mo: "\<forall>e\<in>set m. fst e \<noteq> []" and kl: "keeps_length E m"
    and enc: "bmpmEncode U a E = Some A"
  shows "\<exists>A'. bmpmEncode U a (approx_mode E m) = Some A'
      \<and> folded_into (approx_mode E m) (all_keys A) (all_keys A')"
proof (cases "trim a = []")
  case True
  then show ?thesis using enc by (auto simp: bmpmEncode_def folded_into_def all_keys_def new_Set_def)
next
  case False
  then have "encode_langs U E (toLowerCase U (normalizeNFC U a))
      (detectLanguages (toLowerCase U (normalizeNFC U a)) E) [] = Some A"
    using enc by (simp add: bmpmEncode_def Let_def)
  moreover have "folded_into (approx_mode E m) (concat (map keys [])) (concat (map keys []))"
    by (simp add: folded_into_def)
  ultimately obtain A' where "encode_langs U (approx_mode E m) (toLowerCase U (normalizeNFC U a))
      (detectLanguages (toLowerCase U (normalizeNFC U a)) E) [] = Some A'"
    "folded_into (approx_mode E m) (concat (map keys A)) (concat (map keys A'))"
    using encode_langs_related [OF E mo rc cov kl] by blast
  then show ?thesis
    using False
    by (auto simp: bmpmEncode_def Let_def approx_mode_same folded_into_def set_all_keys)
qed

lemma filter_max_of_nonempty:
  assumes "xs \<noteq> []"
  shows "filter (\<lambda>m. f m = max_of (map f xs)) xs \<noteq> []"
proof -
  have "max_of (map f xs) = Max (f ` set xs)" using assms by (simp add: max_of_eq)
  moreover have "Max (f ` set xs) \<in> f ` set xs" using assms by (intro Max_in) auto
  ultimately show ?thesis by (auto simp: filter_empty_conv)
qed

lemma select_nonempty:
  assumes "r \<in> set rs" and "rule_matches tx p r"
  shows "selectApplicableRules tx p rs \<noteq> []"
proof -
  define ms where "ms = filter (rule_matches tx p) rs"
  have ms: "ms \<noteq> []" using assms by (auto simp: ms_def filter_empty_conv)
  define top where "top = filter (\<lambda>m. priority m = max_of (map priority ms)) ms"
  have top: "top \<noteq> []" unfolding top_def using ms by (rule filter_max_of_nonempty)
  have "selectApplicableRules tx p rs = filter (\<lambda>m. consumed m = max_of (map consumed top)) top"
    using ms
    by (simp only: selectApplicableRules_def Let_def ms_def [symmetric] top_def [symmetric]
        if_False)
  then show ?thesis using filter_max_of_nonempty [OF top, of consumed] by simp
qed

lemma plain_rule_matches:
  assumes "0 \<le> p" and "p < int (length tx)" and "char_at tx p = Some c"
    and "pattern r = [c]" and "lctx r = None" and "rctx r = None"
  shows "rule_matches tx p r"
proof -
  have n: "nat p < length tx" using assms(1,2) by simp
  have "tx ! nat p = c" using assms(1,2,3) by (simp add: char_at_def)
  then have "drop (nat p) tx = c # drop (Suc (nat p)) tx"
    using Cons_nth_drop_Suc [OF n] by simp
  then show ?thesis using assms(4-6) by (simp add: rule_matches_def startsWith_def)
qed

lemma covered_rules_vowels: "vowels_covered_rules (rules covered_rules)"
  unfolding vowels_covered_rules_def
proof (intro allI impI)
  fix tx :: jsstring and p :: int
  assume a: "0 \<le> p \<and> p < int (length tx) \<and> isVowel (char_at tx p)"
  then obtain c where c: "char_at tx p = Some c" by (auto simp: char_at_def)
  then have v: "c = 0x61 \<or> c = 0x65 \<or> c = 0x69 \<or> c = 0x6F \<or> c = 0x75 \<or> c = 0x79"
    using a by (simp add: isVowel_def)
  have "\<exists>r\<in>set (rules covered_rules). pattern r = [c] \<and> lctx r = None \<and> rctx r = None"
    using v by (auto simp: covered_rules_def plain_rule_def js_def)
  then obtain r where "r \<in> set (rules covered_rules)" "rule_matches tx p r"
    using plain_rule_matches a c by blast
  then show "selectApplicableRules tx p (rules covered_rules) \<noteq> []"
    by (rule select_nonempty)
qed

lemma covered_exact_ok:
  "ruleType covered_exact = EXACT \<and> rules_consume covered_exact \<and> vowels_covered covered_exact
   \<and> keeps_length covered_exact [(js ''K'', js ''S'')]"
  using covered_rules_vowels
  by (auto simp: rules_consume_def vowels_covered_def keeps_length_def covered_exact_def
      demo_exact_def covered_rules_def plain_rule_def consumed_def js_def split: if_splits)

lemma covered_exact_c:
  "bmpmEncode ascii_unicode (js ''c'') covered_exact
     = Some [\<lparr>r_language = js ''english'', keys = [js ''K'', js ''S'', js ''Z'']\<rparr>]"
  by code_simp

lemma covered_exact_k:
  "bmpmEncode ascii_unicode (js ''k'') covered_exact
     = Some [\<lparr>r_language = js ''english'', keys = [js ''K'', js ''S'']\<rparr>]"
  by code_simp

lemma covered_approx_c:
  "bmpmEncode ascii_unicode (js ''c'') (approx_mode covered_exact [(js ''K'', js ''S'')])
     = Some [\<lparr>r_language = js ''english'', keys = [js ''S'', js ''Z'']\<rparr>]"
  by code_simp

lemma covered_approx_k:
  "bmpmEncode ascii_unicode (js ''k'') (approx_mode covered_exact [(js ''K'', js ''S'')])
     = Some [\<lparr>r_language = js ''english'', keys = [js ''S'']\<rparr>]"
  by code_simp

lemma covered_exact_kk:
  "bmpmEncode ascii_unicode (js ''kk'') (covered_exact\<lparr>minKeyLength := 2\<rparr>)
     = Some [\<lparr>r_language = js ''english'',
              keys = [js ''KK'', js ''KS'', js ''SK'', js ''SS'']\<rparr>]"
  by code_simp

lemma covered_approx_kk:
  "bmpmEncode ascii_unicode (js ''kk'')
      (approx_mode (covered_exact\<lparr>minKeyLength := 2\<rparr>) [(js ''K'', js ''S'')])
     = Some []"
  by code_simp

lemma approx_of_mode: "collapseDuplicates cfg \<Longrightarrow> approx_of cfg m = approx_mode cfg m"
  by (simp add: approx_of_def approx_mode_def)

text \<open>
  C2 (as amended): let the APPROX configuration be the EXACT one with the rule type
  APPROX and a merger table, every other field the same. When the rules consume at least
  one character, some rule applies at every vowel, no merger symbol is empty, and
  \<open>minKeyLength\<close> is at most 0, or at most 1 with no empty merger value, then the
  encoding under APPROX returns whenever the encoding under EXACT does and holds the
  finalized form of every EXACT key; so two names that share a key under EXACT share one
  under APPROX, and a positive similarity under EXACT gives a positive similarity under
  APPROX.
\<close>

theorem approx_keeps_exact_matches:
  assumes "ruleType E = EXACT" and "rules_consume E" and "vowels_covered E"
    and "\<forall>e\<in>set m. fst e \<noteq> []" and "keeps_length E m"
  shows "(\<forall>A. bmpmEncode U a E = Some A \<longrightarrow>
            (\<exists>A'. bmpmEncode U a (approx_mode E m) = Some A'
               \<and> (\<forall>k\<in>set (all_keys A).
                     \<exists>f. finalizeKey k (approx_mode E m) = Some f \<and> f \<in> set (all_keys A'))))
     \<and> (bmpmMatch U a b E = Some True \<longrightarrow> bmpmMatch U a b (approx_mode E m) = Some True)
     \<and> (\<forall>se. bmpmSimilarity U a b E = Some se \<and> 0 < se \<longrightarrow>
            (\<exists>sa. bmpmSimilarity U a b (approx_mode E m) = Some sa \<and> 0 < sa))"
proof -
  note rel = bmpmEncode_related [OF assms(1,2,3,4,5)]
  have enc: "\<forall>A. bmpmEncode U a E = Some A \<longrightarrow>
            (\<exists>A'. bmpmEncode U a (approx_mode E m) = Some A'
               \<and> (\<forall>k\<in>set (all_keys A).
                     \<exists>f. finalizeKey k (approx_mode E m) = Some f \<and> f \<in> set (all_keys A')))"
    using rel [of U a] unfolding folded_into_def by blast
  have match: "bmpmMatch U a b (approx_mode E m) = Some True"
    if t: "bmpmMatch U a b E = Some True"
  proof -
    obtain A B where A: "bmpmEncode U a E = Some A" and B: "bmpmEncode U b E = Some B"
      and sh: "set (all_keys A) \<inter> set (all_keys B) \<noteq> {}"
      using t by (auto simp: bmpmMatch_def Let_def list_ex_mem split: option.splits)
    obtain A' where A': "bmpmEncode U a (approx_mode E m) = Some A'"
      "folded_into (approx_mode E m) (all_keys A) (all_keys A')"
      using rel [OF A] by blast
    obtain B' where B': "bmpmEncode U b (approx_mode E m) = Some B'"
      "folded_into (approx_mode E m) (all_keys B) (all_keys B')"
      using rel [OF B] by blast
    obtain k where k: "k \<in> set (all_keys A)" "k \<in> set (all_keys B)" using sh by blast
    obtain f where f: "finalizeKey k (approx_mode E m) = Some f" "f \<in> set (all_keys A')"
      using A'(2) k(1) unfolding folded_into_def by blast
    obtain g where g: "finalizeKey k (approx_mode E m) = Some g" "g \<in> set (all_keys B')"
      using B'(2) k(2) unfolding folded_into_def by blast
    have "f \<in> set (all_keys A') \<inter> set (all_keys B')" using f g by simp
    then show ?thesis using A'(1) B'(1) by (auto simp: bmpmMatch_def Let_def list_ex_mem)
  qed
  have sim: "\<exists>sa. bmpmSimilarity U a b (approx_mode E m) = Some sa \<and> 0 < sa"
    if s: "bmpmSimilarity U a b E = Some se \<and> 0 < se" for se
  proof -
    have "bmpmMatch U a b E = Some True"
      using s by (auto simp: bmpmMatch_def bmpmSimilarity_def Let_def list_ex_mem
          jaccard_pos [OF distinct_all_keys] split: option.splits)
    then have "bmpmMatch U a b (approx_mode E m) = Some True" by (rule match)
    then show ?thesis
      by (auto simp: bmpmMatch_def bmpmSimilarity_def Let_def list_ex_mem
          jaccard_pos [OF distinct_all_keys] split: option.splits)
  qed
  show ?thesis using enc match sim by blast
qed

theorem approx_keeps_exact_matches_witness:
  "ruleType covered_exact = EXACT \<and> rules_consume covered_exact \<and> vowels_covered covered_exact
   \<and> keeps_length covered_exact [(js ''K'', js ''S'')]
   \<and> bmpmMatch ascii_unicode (js ''c'') (js ''k'') covered_exact = Some True
   \<and> bmpmMatch ascii_unicode (js ''c'') (js ''k'')
        (approx_mode covered_exact [(js ''K'', js ''S'')]) = Some True"
proof -
  have m: "\<forall>e\<in>set [(js ''K'', js ''S'')]. fst e \<noteq> []" by (simp add: js_def)
  have t: "bmpmMatch ascii_unicode (js ''c'') (js ''k'') covered_exact = Some True"
    unfolding bmpmMatch_def covered_exact_c covered_exact_k
    by (simp add: all_keys_def new_Set_def set_add_def js_def)
  have "bmpmMatch ascii_unicode (js ''c'') (js ''k'')
      (approx_mode covered_exact [(js ''K'', js ''S'')]) = Some True"
    using approx_keeps_exact_matches [of covered_exact "[(js ''K'', js ''S'')]" ascii_unicode
        "js ''c''" "js ''k''"] covered_exact_ok m t
    by blast
  then show ?thesis using covered_exact_ok t by simp
qed

text \<open>
  C2 as stated fails. A name that is one vowel with no rule has the key A under EXACT
  and, the vowel being dropped under APPROX, no key of the minimal length there. With a
  rule for every vowel, the merger table folds two of the three keys that two names
  share into one, which takes their similarity from 2/3 to 1/2. And with
  \<open>minKeyLength\<close> 2, folding and collapsing shorten every key of a name below the
  minimal length, which takes its similarity with itself from 1 to 0.
\<close>

theorem approx_similarity_below_exact:
  "ruleType demo_exact = EXACT \<and> mergerTable demo_exact = None
   \<and> collapseDuplicates demo_exact = False
   \<and> bmpmSimilarity ascii_unicode (js ''a'') (js ''a'') demo_exact = Some 1
   \<and> bmpmSimilarity ascii_unicode (js ''a'') (js ''a'')
        (approx_of demo_exact [(js ''K'', js ''C''), (js ''SK'', js ''X'')]) = Some 0
   \<and> ruleType covered_exact = EXACT \<and> mergerTable covered_exact = None
   \<and> bmpmSimilarity ascii_unicode (js ''c'') (js ''k'') covered_exact = Some (2 / 3)
   \<and> bmpmSimilarity ascii_unicode (js ''c'') (js ''k'')
        (approx_mode covered_exact [(js ''K'', js ''S'')]) = Some (1 / 2)
   \<and> bmpmSimilarity ascii_unicode (js ''kk'') (js ''kk'') (covered_exact\<lparr>minKeyLength := 2\<rparr>)
        = Some 1
   \<and> bmpmSimilarity ascii_unicode (js ''kk'') (js ''kk'')
        (approx_mode (covered_exact\<lparr>minKeyLength := 2\<rparr>) [(js ''K'', js ''S'')]) = Some 0"
proof -
  have k1: "bmpmSimilarity ascii_unicode (js ''kk'') (js ''kk'')
      (covered_exact\<lparr>minKeyLength := 2\<rparr>) = Some 1"
    unfolding bmpmSimilarity_def covered_exact_kk
    by (simp add: jaccard_def all_keys_def new_Set_def set_add_def js_def)
  have k0: "bmpmSimilarity ascii_unicode (js ''kk'') (js ''kk'')
      (approx_mode (covered_exact\<lparr>minKeyLength := 2\<rparr>) [(js ''K'', js ''S'')]) = Some 0"
    unfolding bmpmSimilarity_def covered_approx_kk
    by (simp add: jaccard_def all_keys_def new_Set_def)
  have e: "bmpmSimilarity ascii_unicode (js ''a'') (js ''a'') demo_exact = Some 1"
    unfolding bmpmSimilarity_def demo_exact_a
    by (simp add: jaccard_def all_keys_def new_Set_def set_add_def js_def)
  have a: "bmpmSimilarity ascii_unicode (js ''a'') (js ''a'')
      (approx_of demo_exact [(js ''K'', js ''C''), (js ''SK'', js ''X'')]) = Some 0"
    unfolding bmpmSimilarity_def demo_approx_of_a
    by (simp add: jaccard_def all_keys_def new_Set_def)
  have c: "bmpmSimilarity ascii_unicode (js ''c'') (js ''k'') covered_exact = Some (2 / 3)"
    unfolding bmpmSimilarity_def covered_exact_c covered_exact_k
    by (simp add: jaccard_def all_keys_def new_Set_def set_add_def js_def)
  have d: "bmpmSimilarity ascii_unicode (js ''c'') (js ''k'')
      (approx_mode covered_exact [(js ''K'', js ''S'')]) = Some (1 / 2)"
    unfolding bmpmSimilarity_def covered_approx_c covered_approx_k
    by (simp add: jaccard_def all_keys_def new_Set_def set_add_def js_def)
  show ?thesis using e a c d k1 k0 by (simp add: demo_exact_def covered_exact_def)
qed

section \<open>A language named as an inherited property\<close>

lemma inherited_language_raises:
  "bmpmEncode ascii_unicode (js ''s'') constructor_cfg = None
   \<and> bmpmEncode ascii_unicode (js ''-'') constructor_cfg = Some []"
  by code_simp

end
